theory Spec2Isabelle
  imports Complex_Main "HOL-Library.Word" "HOL-Library.Sublist" "HOL-Library.Log_Nat"
begin

unbundle bit_operations_syntax

section \<open>Machine integers and errors\<close>

text \<open>
  Go's fixed-width integers are words: \<open>+\<close>, \<open>-\<close> and \<open>*\<close> wrap around,
  \<open>push_bit\<close> is \<open><<\<close> and \<open>drop_bit\<close> is \<open>>>\<close> on unsigned operands. A Go shift
  by at least the width gives 0, which is what \<open>push_bit\<close> and \<open>drop_bit\<close> on a word do.
  Signed types (\<open>int32\<close>, \<open>int64\<close>) are words read with \<open>sint\<close>; \<open>scast\<close>
  is the sign-extending conversion, \<open>ucast\<close> the zero-extending or truncating one.
  Bit counts (\<open>n\<close>, \<open>bitCount\<close>) and slice lengths are Go \<open>int\<close>s that are never
  negative at any call site of this package; they are \<open>nat\<close> here.
\<close>

type_synonym u8 = "8 word"
type_synonym u16 = "16 word"
type_synonym u32 = "32 word"
type_synonym u64 = "64 word"
type_synonym i32 = "32 word"
type_synonym i64 = "64 word"

text \<open>
  The two errors \<open>NewEncoder\<close> returns, the two \<open>EncodeFrame\<close> returns, and the
  run-time panics the code can raise.
\<close>

datatype error =
    ErrInvalidChannels
  | ErrInvalidBitsPerSample
  | ErrSampleCountMismatch
  | ErrBlockSizeMismatch
  | PanicIndexOutOfRange
  | PanicSliceBounds
  | PanicMakeSliceLen
  | PanicDivideByZero

section \<open>bitwriter.go\<close>

record bitWriter =
  buf :: "u8 list"
  current :: u64
  bitCount :: nat

definition newBitWriter :: bitWriter where
  "newBitWriter = \<lparr>buf = [], current = 0, bitCount = 0\<rparr>"

text \<open>The loop \<open>for bw.bitCount >= 8\<close> of \<open>writeBits\<close> (lines 28 to 33).\<close>

function flushBytes :: "bitWriter \<Rightarrow> bitWriter" where
  "flushBytes bw =
     (if 8 \<le> bitCount bw then
        let bc = bitCount bw - 8;
            b = (ucast (drop_bit bc (current bw)) :: u8)
        in flushBytes \<lparr>buf = buf bw @ [b],
                        current = current bw AND (push_bit bc 1 - 1),
                        bitCount = bc\<rparr>
      else bw)"
  by pat_completeness auto
termination
  by (relation "measure bitCount") auto

declare flushBytes.simps [simp del]

definition writeBits :: "bitWriter \<Rightarrow> u64 \<Rightarrow> nat \<Rightarrow> bitWriter" where
  "writeBits bw val n =
     (if n = 0 then bw
      else flushBytes (bw\<lparr>current := push_bit n (current bw) OR (val AND (push_bit n 1 - 1)),
                          bitCount := bitCount bw + n\<rparr>))"

definition writeBitsSigned :: "bitWriter \<Rightarrow> i64 \<Rightarrow> nat \<Rightarrow> bitWriter" where
  "writeBitsSigned bw val n =
     (let uval = (if val <s 0 then push_bit n 1 + val else val)
      in writeBits bw uval n)"

definition writeUTF8 :: "bitWriter \<Rightarrow> u64 \<Rightarrow> bitWriter" where
  "writeUTF8 bw val =
     (if val < 0x80 then
        writeBits bw val 8
      else if val < 0x800 then
        (let bw = writeBits bw (0xC0 OR drop_bit 6 val) 8
         in writeBits bw (0x80 OR (val AND 0x3F)) 8)
      else if val < 0x10000 then
        (let bw = writeBits bw (0xE0 OR drop_bit 12 val) 8;
             bw = writeBits bw (0x80 OR (drop_bit 6 val AND 0x3F)) 8
         in writeBits bw (0x80 OR (val AND 0x3F)) 8)
      else if val < 0x200000 then
        (let bw = writeBits bw (0xF0 OR drop_bit 18 val) 8;
             bw = writeBits bw (0x80 OR (drop_bit 12 val AND 0x3F)) 8;
             bw = writeBits bw (0x80 OR (drop_bit 6 val AND 0x3F)) 8
         in writeBits bw (0x80 OR (val AND 0x3F)) 8)
      else if val < 0x4000000 then
        (let bw = writeBits bw (0xF8 OR drop_bit 24 val) 8;
             bw = writeBits bw (0x80 OR (drop_bit 18 val AND 0x3F)) 8;
             bw = writeBits bw (0x80 OR (drop_bit 12 val AND 0x3F)) 8;
             bw = writeBits bw (0x80 OR (drop_bit 6 val AND 0x3F)) 8
         in writeBits bw (0x80 OR (val AND 0x3F)) 8)
      else if val < 0x80000000 then
        (let bw = writeBits bw (0xFC OR drop_bit 30 val) 8;
             bw = writeBits bw (0x80 OR (drop_bit 24 val AND 0x3F)) 8;
             bw = writeBits bw (0x80 OR (drop_bit 18 val AND 0x3F)) 8;
             bw = writeBits bw (0x80 OR (drop_bit 12 val AND 0x3F)) 8;
             bw = writeBits bw (0x80 OR (drop_bit 6 val AND 0x3F)) 8
         in writeBits bw (0x80 OR (val AND 0x3F)) 8)
      else
        (let bw = writeBits bw (0xFE OR drop_bit 36 val) 8;
             bw = writeBits bw (0x80 OR (drop_bit 30 val AND 0x3F)) 8;
             bw = writeBits bw (0x80 OR (drop_bit 24 val AND 0x3F)) 8;
             bw = writeBits bw (0x80 OR (drop_bit 18 val AND 0x3F)) 8;
             bw = writeBits bw (0x80 OR (drop_bit 12 val AND 0x3F)) 8;
             bw = writeBits bw (0x80 OR (drop_bit 6 val AND 0x3F)) 8
         in writeBits bw (0x80 OR (val AND 0x3F)) 8))"

text \<open>
  \<open>alignToByte\<close> computes \<open>8 - bw.bitCount\<close>. Every \<open>writeBits\<close> leaves
  \<open>bitCount\<close> below 8 (lemma \<open>writeBits_bitCount\<close> below), so the difference is
  positive wherever the package calls it.
\<close>

definition alignToByte :: "bitWriter \<Rightarrow> bitWriter" where
  "alignToByte bw = (if 0 < bitCount bw then writeBits bw 0 (8 - bitCount bw) else bw)"

definition bytes :: "bitWriter \<Rightarrow> u8 list" where
  "bytes bw = buf bw"

section \<open>The bit stream a writer holds\<close>

text \<open>
  \<open>msb_bits v n\<close> is the low \<open>n\<close> bits of \<open>v\<close> (a word or a natural number), most
  significant first: a list of length \<open>n\<close> whose element \<open>i\<close> is bit \<open>n - 1 - i\<close> of \<open>v\<close>. The bit
  stream of a writer is the bits of its whole bytes followed by the \<open>bitCount\<close> pending
  bits of the accumulator.
\<close>

definition msb_bits :: "'a::semiring_bits \<Rightarrow> nat \<Rightarrow> bool list" where
  "msb_bits v n = rev (map (bit v) [0..<n])"

definition bw_bits :: "bitWriter \<Rightarrow> bool list" where
  "bw_bits bw = concat (map (\<lambda>b. msb_bits b 8) (buf bw)) @ msb_bits (current bw) (bitCount bw)"


section \<open>sine.go: the encoder\<close>

text \<open>
  The sink \<open>w\<close> is an in-memory buffer (\<open>bytes.Buffer\<close>, as in the tests and the example
  driver): its \<open>Write\<close> appends and never returns an error. The branches
  \<open>if err != nil { return err }\<close> are kept in the model through \<open>Write\<close>'s result type.
  \<open>md5sum\<close> is a 16-byte array; \<open>copy\<close> moves as many bytes as source and
  destination both have.
\<close>

record Encoder =
  w :: "u8 list"
  sampleRate :: u32
  channels :: u8
  bitsPerSample :: u8
  totalSamples :: u64
  blockSize :: u32
  minFrameSize :: u32
  maxFrameSize :: u32
  md5sum :: "u8 list"

definition Write :: "Encoder \<Rightarrow> u8 list \<Rightarrow> error + Encoder" where
  "Write e bs = Inr (e\<lparr>w := w e @ bs\<rparr>)"

definition NewEncoder :: "u8 list \<Rightarrow> u32 \<Rightarrow> u8 \<Rightarrow> u8 \<Rightarrow> error + Encoder" where
  "NewEncoder sink rate chans bps =
     (if chans = 0 \<or> chans > 8 then Inl ErrInvalidChannels
      else if bps = 0 \<or> bps > 32 then Inl ErrInvalidBitsPerSample
      else Inr \<lparr>w = sink, sampleRate = rate, channels = chans, bitsPerSample = bps,
                totalSamples = 0, blockSize = 4096, minFrameSize = 0, maxFrameSize = 0,
                md5sum = replicate 16 0\<rparr>)"

text \<open>\<open>binary.BigEndian.PutUint16(b, v)\<close> and \<open>PutUint32(b, v)\<close> on \<open>b[i:]\<close>.\<close>

definition PutUint16 :: "u8 list \<Rightarrow> nat \<Rightarrow> u16 \<Rightarrow> u8 list" where
  "PutUint16 b i v = b[i := ucast (drop_bit 8 v), i + 1 := ucast v]"

definition PutUint32 :: "u8 list \<Rightarrow> nat \<Rightarrow> u32 \<Rightarrow> u8 list" where
  "PutUint32 b i v =
     b[i := ucast (drop_bit 24 v), i + 1 := ucast (drop_bit 16 v),
       i + 2 := ucast (drop_bit 8 v), i + 3 := ucast v]"

text \<open>
  \<open>WriteStreamInfo\<close>, lines 143 to 202. In lines 157 to 159 the slice \<open>length\<close> is three
  zero bytes. \<open>append([]byte{0}, length...)\<close> allocates a new array of four bytes (the
  literal \<open>[]byte{0}\<close> has capacity 1), and \<open>PutUint32\<close> stores 34 into that new array,
  which is then dropped: \<open>length\<close> itself is never written. The sink receives
  \<open>length[1:]\<close>, the last two of the three zero bytes.
\<close>

definition WriteStreamInfo :: "Encoder \<Rightarrow> error + Encoder" where
  "WriteStreamInfo e =
     (case Write e [0x66, 0x4C, 0x61, 0x43] of Inl err \<Rightarrow> Inl err | Inr e \<Rightarrow>
      let header = (0x80 :: u8) in
      case Write e [header] of Inl err \<Rightarrow> Inl err | Inr e \<Rightarrow>
      let lengthBytes = replicate 3 (0 :: u8);
          scratch = PutUint32 (take 4 ([0] @ lengthBytes)) 0 34 in
      case Write e (drop 1 lengthBytes) of Inl err \<Rightarrow> Inl err | Inr e \<Rightarrow>
      let streamInfo = replicate 34 (0 :: u8);
          streamInfo = PutUint16 streamInfo 0 (ucast (blockSize e));
          streamInfo = PutUint16 streamInfo 2 (ucast (blockSize e));
          streamInfo = streamInfo[4 := 0];
          streamInfo = streamInfo[5 := 0];
          streamInfo = streamInfo[6 := 0];
          streamInfo = streamInfo[7 := 0];
          streamInfo = streamInfo[8 := 0];
          streamInfo = streamInfo[9 := 0];
          streamInfo = streamInfo[10 := ucast (drop_bit 12 (sampleRate e))];
          streamInfo = streamInfo[11 := ucast (drop_bit 4 (sampleRate e))];
          streamInfo = streamInfo[12 := ucast (push_bit 4 (sampleRate e AND 0x0F))
                                        OR push_bit 1 (channels e - 1)
                                        OR drop_bit 4 (bitsPerSample e - 1)];
          streamInfo = streamInfo[13 := push_bit 4 ((bitsPerSample e - 1) AND 0x0F)
                                        OR ucast (drop_bit 32 (totalSamples e))];
          streamInfo = PutUint32 streamInfo 14 (ucast (totalSamples e));
          n = min 16 (length (md5sum e));
          streamInfo = take 18 streamInfo @ take n (md5sum e) @ drop (18 + n) streamInfo
      in Write e streamInfo)"

subsection \<open>Code tables\<close>

definition getBlockSizeCode :: "u32 \<Rightarrow> u8" where
  "getBlockSizeCode bs =
     (if bs = 192 then 0x01
      else if bs = 576 then 0x02
      else if bs = 1152 then 0x03
      else if bs = 2304 then 0x04
      else if bs = 4608 then 0x05
      else if bs = 256 then 0x08
      else if bs = 512 then 0x09
      else if bs = 1024 then 0x0A
      else if bs = 2048 then 0x0B
      else if bs = 4096 then 0x0C
      else if bs = 8192 then 0x0D
      else if bs = 16384 then 0x0E
      else if bs = 32768 then 0x0F
      else if bs \<le> 256 then 0x06
      else 0x07)"

definition getSampleRateCode :: "u32 \<Rightarrow> u8" where
  "getSampleRateCode sr =
     (if sr = 88200 then 0x01
      else if sr = 176400 then 0x02
      else if sr = 192000 then 0x03
      else if sr = 8000 then 0x04
      else if sr = 16000 then 0x05
      else if sr = 22050 then 0x06
      else if sr = 24000 then 0x07
      else if sr = 32000 then 0x08
      else if sr = 44100 then 0x09
      else if sr = 48000 then 0x0A
      else if sr = 96000 then 0x0B
      else if sr mod 1000 = 0 \<and> sr div 1000 < 256 then 0x0C
      else if sr < 65536 then 0x0D
      else 0x0E)"

definition getSampleSizeCode :: "u8 \<Rightarrow> u8" where
  "getSampleSizeCode bps =
     (if bps = 8 then 0x01
      else if bps = 12 then 0x02
      else if bps = 16 then 0x04
      else if bps = 20 then 0x05
      else if bps = 24 then 0x06
      else if bps = 32 then 0x07
      else 0x00)"

subsection \<open>CRC\<close>

definition crc8_shift :: "u8 \<Rightarrow> u8" where
  "crc8_shift crc = (if crc AND 0x80 \<noteq> 0 then push_bit 1 crc XOR 0x07 else push_bit 1 crc)"

definition calculateCRC8 :: "u8 list \<Rightarrow> u8" where
  "calculateCRC8 data = foldl (\<lambda>crc b. (crc8_shift ^^ 8) (crc XOR b)) 0 data"

definition crc16_shift :: "u16 \<Rightarrow> u16" where
  "crc16_shift crc = (if crc AND 0x8000 \<noteq> 0 then push_bit 1 crc XOR 0x8005 else push_bit 1 crc)"

definition calculateCRC16 :: "u8 list \<Rightarrow> u16" where
  "calculateCRC16 data = foldl (\<lambda>crc b. (crc16_shift ^^ 8) (crc XOR push_bit 8 (ucast b))) 0 data"

subsection \<open>Rice coding\<close>

text \<open>
  \<open>encodeRice\<close>, lines 390 to 411. \<open>-2*value - 1\<close> and \<open>2 * value\<close> are \<open>int32\<close>
  arithmetic (wrapping), converted to \<open>uint32\<close> bit for bit. The unary loop writes
  \<open>quotient\<close> zero bits one at a time.
\<close>

definition encodeRice :: "bitWriter \<Rightarrow> i32 \<Rightarrow> u8 \<Rightarrow> bitWriter" where
  "encodeRice bw val param =
     (let uval = (if val <s 0 then - 2 * val - 1 else 2 * val) :: u32;
          quotient = drop_bit (unat param) uval;
          remainder = uval AND (push_bit (unat param) 1 - 1);
          bw = ((\<lambda>bw. writeBits bw 0 1) ^^ unat quotient) bw;
          bw = writeBits bw 1 1
      in writeBits bw (ucast remainder) (unat param))"

text \<open>
  \<open>findOptimalRiceParameter\<close>, lines 362 to 387. The sum is a wrapping \<open>uint64\<close>;
  \<open>uint64(-r)\<close> negates in \<open>int32\<close> and sign-extends. The three \<open>float64\<close>
  operations (the two conversions with their division, the comparison, \<open>math.Log2\<close>) are
  idealised as exact operations on real numbers: rounding is not modelled.
  \<open>uint8(x)\<close> truncates a non-negative float.
\<close>

definition findOptimalRiceParameter :: "i32 list \<Rightarrow> u8" where
  "findOptimalRiceParameter residuals =
     (if length residuals = 0 then 0
      else
        let sum = foldl (\<lambda>sum r. if r <s 0 then sum + scast (- r) else sum + scast r)
                        (0 :: u64) residuals;
            mean = real (unat sum) / real (length residuals)
        in if mean < 1 then 0
           else let param = (of_int \<lfloor>log 2 mean\<rfloor> :: u8)
                in if param > 14 then 14 else param)"

definition encodeResidual :: "Encoder \<Rightarrow> bitWriter \<Rightarrow> i32 list \<Rightarrow> error + bitWriter" where
  "encodeResidual e bw residuals =
     (let bw = writeBits bw 0 2;
          partitionOrder = (0 :: u64);
          bw = writeBits bw partitionOrder 4;
          riceParam = findOptimalRiceParameter residuals;
          bw = writeBits bw (ucast riceParam) 4;
          bw = foldl (\<lambda>bw r. encodeRice bw r riceParam) bw residuals
      in Inr bw)"

subsection \<open>Subframes\<close>

text \<open>A Go index expression \<open>xs[i]\<close>: it panics outside \<open>0 \<le> i < len(xs)\<close>.\<close>

definition index :: "'a list \<Rightarrow> int \<Rightarrow> error + 'a" where
  "index xs i = (if 0 \<le> i \<and> i < int (length xs) then Inr (xs ! nat i) else Inl PanicIndexOutOfRange)"

definition bindE :: "error + 'a \<Rightarrow> ('a \<Rightarrow> error + 'b) \<Rightarrow> error + 'b" where
  "bindE m f = (case m of Inl err \<Rightarrow> Inl err | Inr x \<Rightarrow> f x)"

definition fixedPredict :: "i32 list \<Rightarrow> int \<Rightarrow> int \<Rightarrow> error + i32" where
  "fixedPredict samples pos order =
     (if order = 0 then Inr 0
      else if order = 1 then index samples (pos - 1)
      else if order = 2 then
        bindE (index samples (pos - 1)) (\<lambda>s1.
        bindE (index samples (pos - 2)) (\<lambda>s2. Inr (2 * s1 - s2)))
      else if order = 3 then
        bindE (index samples (pos - 1)) (\<lambda>s1.
        bindE (index samples (pos - 2)) (\<lambda>s2.
        bindE (index samples (pos - 3)) (\<lambda>s3. Inr (3 * s1 - 3 * s2 + s3))))
      else if order = 4 then
        bindE (index samples (pos - 1)) (\<lambda>s1.
        bindE (index samples (pos - 2)) (\<lambda>s2.
        bindE (index samples (pos - 3)) (\<lambda>s3.
        bindE (index samples (pos - 4)) (\<lambda>s4. Inr (4 * s1 - 6 * s2 + 4 * s3 - s4)))))
      else Inr 0)"

text \<open>The warm-up loop of \<open>encodeSubframe\<close> (lines 305 to 307), over \<open>i = 0, ..., order - 1\<close>.\<close>

fun writeWarmup :: "Encoder \<Rightarrow> bitWriter \<Rightarrow> i32 list \<Rightarrow> nat list \<Rightarrow> error + bitWriter" where
  "writeWarmup e bw samples [] = Inr bw"
| "writeWarmup e bw samples (i # is) =
     (case index samples (int i) of Inl err \<Rightarrow> Inl err
      | Inr s \<Rightarrow> writeWarmup e (writeBitsSigned bw (scast s) (unat (bitsPerSample e))) samples is)"

text \<open>The residual loop (lines 311 to 314), over \<open>i = order, ..., len(samples) - 1\<close>.\<close>

fun calcResiduals :: "i32 list \<Rightarrow> nat \<Rightarrow> nat list \<Rightarrow> error + i32 list" where
  "calcResiduals samples order [] = Inr []"
| "calcResiduals samples order (i # is) =
     (case fixedPredict samples (int i) (int order) of Inl err \<Rightarrow> Inl err
      | Inr predicted \<Rightarrow>
         (case index samples (int i) of Inl err \<Rightarrow> Inl err
          | Inr s \<Rightarrow>
             (case calcResiduals samples order is of Inl err \<Rightarrow> Inl err
              | Inr rs \<Rightarrow> Inr ((s - predicted) # rs))))"

definition encodeSubframe :: "Encoder \<Rightarrow> bitWriter \<Rightarrow> i32 list \<Rightarrow> error + bitWriter" where
  "encodeSubframe e bw samples =
     (let order = (2 :: nat);
          bw = writeBits bw 0 1;
          bw = writeBits bw (0x08 OR of_nat order) 6;
          bw = writeBits bw 0 1
      in case writeWarmup e bw samples [0..<order] of Inl err \<Rightarrow> Inl err
         | Inr bw \<Rightarrow>
            if length samples < order then Inl PanicMakeSliceLen
            else (case calcResiduals samples order [order..<length samples] of Inl err \<Rightarrow> Inl err
                  | Inr residuals \<Rightarrow> encodeResidual e bw residuals))"

text \<open>
  The subframe loop of \<open>EncodeFrame\<close> (lines 271 to 275). \<open>ch\<close> runs over
  \<open>0, ..., channels - 1\<close>, which are all the indices of \<open>samples\<close> once the check of
  line 206 has passed.
\<close>

fun encodeSubframes :: "Encoder \<Rightarrow> bitWriter \<Rightarrow> i32 list list \<Rightarrow> error + bitWriter" where
  "encodeSubframes e bw [] = Inr bw"
| "encodeSubframes e bw (s # ss) =
     (case encodeSubframe e bw s of Inl err \<Rightarrow> Inl err
      | Inr bw \<Rightarrow> encodeSubframes e bw ss)"


subsection \<open>Frames\<close>

text \<open>
  \<open>EncodeFrame\<close>, lines 217 to 244: a new bit writer, the sync code and the header codes up
  to the reserved bit before the frame number.
\<close>

definition frameHeaderCodes :: "Encoder \<Rightarrow> nat \<Rightarrow> bitWriter" where
  "frameHeaderCodes e bsize =
     (let bw = newBitWriter;
          bw = writeBits bw 0x3FFE 14;
          bw = writeBits bw 0 1;
          bw = writeBits bw 0 1;
          blockSizeCode = getBlockSizeCode (of_nat bsize);
          bw = writeBits bw (ucast blockSizeCode) 4;
          sampleRateCode = getSampleRateCode (sampleRate e);
          bw = writeBits bw (ucast sampleRateCode) 4;
          bw = writeBits bw (ucast (channels e - 1)) 4;
          sampleSizeCode = getSampleSizeCode (bitsPerSample e);
          bw = writeBits bw (ucast sampleSizeCode) 3
      in writeBits bw 0 1)"

text \<open>
  Lines 246 to 263: the frame number and the two optional trailers. \<open>blockSize-1\<close> is
  computed in \<open>int\<close> and converted to \<open>uint64\<close>.
\<close>

definition frameHeader :: "Encoder \<Rightarrow> nat \<Rightarrow> u64 \<Rightarrow> bitWriter" where
  "frameHeader e bsize frameNumber =
     (let bw = frameHeaderCodes e bsize;
          blockSizeCode = getBlockSizeCode (of_nat bsize);
          sampleRateCode = getSampleRateCode (sampleRate e);
          bw = writeUTF8 bw frameNumber;
          bw = (if blockSizeCode = 0x06 then writeBits bw (of_int (int bsize - 1)) 8
                else if blockSizeCode = 0x07 then writeBits bw (of_int (int bsize - 1)) 16
                else bw)
      in if sampleRateCode = 0x0C then writeBits bw (ucast (sampleRate e div 1000)) 8
         else if sampleRateCode = 0x0D then writeBits bw (ucast (sampleRate e)) 16
         else if sampleRateCode = 0x0E then writeBits bw (ucast (sampleRate e div 10)) 16
         else bw)"

text \<open>
  Lines 206 to 283: the two shape checks and the bytes of the frame, before they are
  handed to the sink. \<open>samples[0]\<close> panics on an encoder of zero channels given no
  channel.
\<close>

definition frameBytes :: "Encoder \<Rightarrow> i32 list list \<Rightarrow> u64 \<Rightarrow> error + u8 list" where
  "frameBytes e samples frameNumber =
     (if length samples \<noteq> unat (channels e) then Inl ErrSampleCountMismatch
      else case samples of [] \<Rightarrow> Inl PanicIndexOutOfRange
      | s0 # rest \<Rightarrow>
         let bsize = length s0 in
         if list_ex (\<lambda>s. length s \<noteq> bsize) rest then Inl ErrBlockSizeMismatch
         else
           let bw = frameHeader e bsize frameNumber;
               headerBytes = bytes bw;
               crc8 = calculateCRC8 headerBytes;
               bw = writeBits bw (ucast crc8) 8
           in case encodeSubframes e bw samples of Inl err \<Rightarrow> Inl err
              | Inr bw \<Rightarrow>
                 let bw = alignToByte bw;
                     frameBytes = bytes bw;
                     crc16 = calculateCRC16 frameBytes;
                     bw = writeBits bw (ucast crc16) 16
                 in Inr (bytes bw))"

definition EncodeFrame :: "Encoder \<Rightarrow> i32 list list \<Rightarrow> u64 \<Rightarrow> error + Encoder" where
  "EncodeFrame e samples frameNumber =
     (case frameBytes e samples frameNumber of Inl err \<Rightarrow> Inl err
      | Inr bs \<Rightarrow> Write e bs)"

subsection \<open>The block loop\<close>

text \<open>
  The argument of \<open>Encode\<close> is a slice of slices. A Go slice has a length and a capacity:
  \<open>elems\<close> are its \<open>len\<close> elements, \<open>spare\<close> the elements of its backing array between
  length and capacity. The slice expression \<open>s[lo:hi]\<close> panics unless
  \<open>lo \<le> hi \<le> cap(s)\<close>, and may reach into the spare elements.
\<close>

record slice =
  elems :: "i32 list"
  spare :: "i32 list"

definition len :: "slice \<Rightarrow> nat" where
  "len s = length (elems s)"

definition cap :: "slice \<Rightarrow> nat" where
  "cap s = length (elems s) + length (spare s)"

definition sliceRange :: "slice \<Rightarrow> nat \<Rightarrow> nat \<Rightarrow> error + i32 list" where
  "sliceRange s lo hi =
     (if lo \<le> hi \<and> hi \<le> cap s then Inr (take (hi - lo) (drop lo (elems s @ spare s)))
      else Inl PanicSliceBounds)"

text \<open>Lines 555 to 558, over \<open>ch = 0, ..., channels - 1\<close>.\<close>

fun extractBlock :: "slice list \<Rightarrow> nat \<Rightarrow> nat \<Rightarrow> nat list \<Rightarrow> error + i32 list list" where
  "extractBlock samples start stop [] = Inr []"
| "extractBlock samples start stop (ch # chs) =
     (if length samples \<le> ch then Inl PanicIndexOutOfRange
      else case sliceRange (samples ! ch) start stop of Inl err \<Rightarrow> Inl err
           | Inr blk \<Rightarrow>
              (case extractBlock samples start stop chs of Inl err \<Rightarrow> Inl err
               | Inr blks \<Rightarrow> Inr (blk # blks)))"

text \<open>The loop of lines 547 to 563; \<open>n0\<close> is \<open>len(samples[0])\<close>.\<close>

function encodeBlocks :: "Encoder \<Rightarrow> slice list \<Rightarrow> nat \<Rightarrow> nat \<Rightarrow> nat \<Rightarrow> error + Encoder" where
  "encodeBlocks e samples n0 blockNum totalBlocks =
     (if blockNum < totalBlocks then
        let bsize = unat (blockSize e);
            start = blockNum * bsize;
            end0 = start + bsize;
            stop = (if end0 > n0 then n0 else end0)
        in case extractBlock samples start stop [0..<unat (channels e)] of Inl err \<Rightarrow> Inl err
           | Inr blockSamples \<Rightarrow>
              (case EncodeFrame e blockSamples (of_nat blockNum) of Inl err \<Rightarrow> Inl err
               | Inr e \<Rightarrow> encodeBlocks e samples n0 (blockNum + 1) totalBlocks)
      else Inr e)"
  by pat_completeness auto
termination
  by (relation "measure (\<lambda>(e, samples, n0, blockNum, totalBlocks). totalBlocks - blockNum)") auto

declare encodeBlocks.simps [simp del]

text \<open>
  \<open>Encode\<close>, lines 539 to 566. \<open>samples[0]\<close> panics on an empty argument, and the
  division panics on a block size of zero.
\<close>

definition Encode :: "Encoder \<Rightarrow> slice list \<Rightarrow> error + Encoder" where
  "Encode e samples =
     (case WriteStreamInfo e of Inl err \<Rightarrow> Inl err
      | Inr e \<Rightarrow>
         let bsize = unat (blockSize e) in
         (case samples of [] \<Rightarrow> Inl PanicIndexOutOfRange
          | s0 # rest \<Rightarrow>
             if bsize = 0 then Inl PanicDivideByZero
             else let totalBlocks = (len s0 + bsize - 1) div bsize
                  in encodeBlocks e samples (len s0) 0 totalBlocks))"


section \<open>Reference notions used in the statements\<close>

text \<open>The zigzag map of Rice coding on mathematical integers: \<open>0, -1, 1, -2, ...\<close> to \<open>0, 1, 2, 3, ...\<close>\<close>

definition zigzag :: "int \<Rightarrow> nat" where
  "zigzag r = (if 0 \<le> r then nat (2 * r) else nat (- 2 * r - 1))"

text \<open>
  The bytes of the frame-number field, and of the two optional trailers of the frame
  header (lines 250 to 263), as the header lemmas below state them.
\<close>

definition utf8_bytes :: "u64 \<Rightarrow> u8 list" where
  "utf8_bytes v = bytes (writeUTF8 newBitWriter v)"

definition blockSizeTrailer :: "nat \<Rightarrow> u8 list" where
  "blockSizeTrailer n =
     (let x = (of_int (int n - 1) :: u64) in
      if getBlockSizeCode (of_nat n) = 0x06 then [ucast x]
      else if getBlockSizeCode (of_nat n) = 0x07 then [ucast (drop_bit 8 x), ucast x]
      else [])"

definition sampleRateTrailer :: "u32 \<Rightarrow> u8 list" where
  "sampleRateTrailer sr =
     (if getSampleRateCode sr = 0x0C then [ucast (sr div 1000)]
      else if getSampleRateCode sr = 0x0D then [ucast (drop_bit 8 sr), ucast sr]
      else if getSampleRateCode sr = 0x0E then [ucast (drop_bit 8 (sr div 10)), ucast (sr div 10)]
      else [])"

text \<open>
  Block \<open>j\<close> of the input, for blocks of \<open>bsize\<close> samples: in every channel the samples
  from \<open>j * bsize\<close> on, at most \<open>bsize\<close> of them.
\<close>

definition blockAt :: "slice list \<Rightarrow> nat \<Rightarrow> nat \<Rightarrow> i32 list list" where
  "blockAt samples bsize j = map (\<lambda>s. take bsize (drop (j * bsize) (elems s))) samples"

text \<open>The encoder \<open>NewEncoder\<close> builds on an empty sink.\<close>

definition mkEncoder :: "u32 \<Rightarrow> u8 \<Rightarrow> u8 \<Rightarrow> Encoder" where
  "mkEncoder rate chans bps =
     \<lparr>w = [], sampleRate = rate, channels = chans, bitsPerSample = bps,
      totalSamples = 0, blockSize = 4096, minFrameSize = 0, maxFrameSize = 0,
      md5sum = replicate 16 0\<rparr>"

text \<open>A slice made with \<open>make([]int32, n)\<close> or a literal: no spare capacity.\<close>

definition mkSlice :: "i32 list \<Rightarrow> slice" where
  "mkSlice xs = \<lparr>elems = xs, spare = []\<rparr>"

text \<open>
  The checksums as remainders of polynomial division over GF(2). A polynomial is the list
  of its coefficients, highest power first. \<open>gf2_add\<close> adds two polynomials aligned at their
  leading coefficients (over GF(2) this is also subtraction), the shorter one continued with
  zeros. \<open>gf2_rem g xs\<close> is long division by a generator \<open>g\<close> with leading coefficient one:
  as long as \<open>xs\<close> has at least as many coefficients as \<open>g\<close>, subtract \<open>g\<close> if the leading
  coefficient of \<open>xs\<close> is one, and drop that coefficient, which is now zero. What is left,
  \<open>length g - 1\<close> coefficients, is the remainder.

  The CRC of a message for a generator of degree \<open>n\<close>, with initial register zero, no
  reflection and no final complement, is the remainder of the bits of the message, the most
  significant bit of every byte first, followed by \<open>n\<close> zero bits. The generator of the
  CRC-8 with polynomial \<open>0x07\<close> is a one followed by the eight bits of \<open>0x07\<close>
  (\<open>x^8 + x^2 + x + 1\<close>), that of the CRC-16 with polynomial \<open>0x8005\<close> a one followed by
  the sixteen bits of \<open>0x8005\<close> (\<open>x^16 + x^15 + x^2 + 1\<close>).
\<close>

fun gf2_add :: "bool list \<Rightarrow> bool list \<Rightarrow> bool list" where
  "gf2_add [] ys = ys"
| "gf2_add xs [] = xs"
| "gf2_add (x # xs) (y # ys) = (x \<noteq> y) # gf2_add xs ys"





text \<open>
  One step of the division seen from a register \<open>r\<close> of \<open>length p\<close> coefficients, for the
  generator \<open>True # p\<close>: the register moves up by one place, and \<open>p\<close> is subtracted if a one
  fell out of it.
\<close>

definition gf2_shift :: "bool list \<Rightarrow> bool list \<Rightarrow> bool list" where
  "gf2_shift p r = gf2_add (tl r @ [False]) (if hd r then p else [])"

section \<open>The bit writer\<close>

lemma flushBytes_ge:
  "8 \<le> bitCount bw \<Longrightarrow> flushBytes bw =
     flushBytes \<lparr>buf = buf bw @ [ucast (drop_bit (bitCount bw - 8) (current bw))],
                 current = current bw AND (push_bit (bitCount bw - 8) 1 - 1),
                 bitCount = bitCount bw - 8\<rparr>"
  by (subst flushBytes.simps) (simp add: Let_def)

lemma flushBytes_lt: "bitCount bw < 8 \<Longrightarrow> flushBytes bw = bw"
  by (subst flushBytes.simps) simp

lemma flushBytes_bitCount: "bitCount (flushBytes bw) = bitCount bw mod 8"
proof (induction bw rule: flushBytes.induct)
  case (1 bw)
  show ?case
  proof (cases "8 \<le> bitCount bw")
    case True
    then show ?thesis
      using "1.IH" [OF True refl refl]
      by (subst flushBytes_ge) (simp_all add: le_mod_geq)
  next
    case False
    then show ?thesis by (simp add: flushBytes_lt)
  qed
qed

lemma flushBytes_length: "length (buf (flushBytes bw)) = length (buf bw) + bitCount bw div 8"
proof (induction bw rule: flushBytes.induct)
  case (1 bw)
  show ?case
  proof (cases "8 \<le> bitCount bw")
    case True
    then show ?thesis
      using "1.IH" [OF True refl refl]
      by (subst flushBytes_ge) (simp_all add: le_div_geq)
  next
    case False
    then show ?thesis by (simp add: flushBytes_lt)
  qed
qed

lemma flushBytes_prefix: "prefix (buf bw) (buf (flushBytes bw))"
proof (induction bw rule: flushBytes.induct)
  case (1 bw)
  show ?case
  proof (cases "8 \<le> bitCount bw")
    case True
    have "prefix (buf bw) (buf bw @ [ucast (drop_bit (bitCount bw - 8) (current bw))])"
      by simp
    also have "prefix \<dots> (buf (flushBytes bw))"
      using "1.IH" [OF True refl refl] flushBytes_ge [OF True] by simp
    finally show ?thesis .
  next
    case False
    then show ?thesis by (simp add: flushBytes_lt)
  qed
qed

lemma msb_bits_split:
  "k \<le> n \<Longrightarrow> msb_bits v n = rev (map (bit v) [k..<n]) @ msb_bits v k"
proof -
  assume "k \<le> n"
  then have "[0..<n] = [0..<k] @ [k..<n]"
    by (metis le_add_diff_inverse upt_add_eq_append zero_le)
  then show ?thesis by (simp add: msb_bits_def)
qed

lemma msb_bits_cong:
  "(\<And>i. i < n \<Longrightarrow> bit v i = bit u i) \<Longrightarrow> msb_bits v n = msb_bits u n"
  by (simp add: msb_bits_def)

lemma flush_step_bits:
  fixes c :: u64
  assumes "8 \<le> bc"
  shows "msb_bits (ucast (drop_bit (bc - 8) c) :: u8) 8 @ msb_bits (c AND (push_bit (bc - 8) 1 - 1)) (bc - 8)
         = msb_bits c bc"
proof -
  have m: "(push_bit (bc - 8) 1 - 1 :: u64) = mask (bc - 8)"
    by (simp add: mask_eq_exp_minus_1 push_bit_eq_mult)
  have a: "msb_bits (c AND mask (bc - 8)) (bc - 8) = msb_bits c (bc - 8)"
    by (rule msb_bits_cong) (auto simp add: bit_and_iff bit_mask_iff dest: bit_imp_le_length)
  have "map (bit (ucast (drop_bit (bc - 8) c) :: u8)) [0..<8] = map (bit c) [bc - 8..<bc]"
  proof (rule nth_equalityI)
    show "length (map (bit (ucast (drop_bit (bc - 8) c) :: u8)) [0..<8]) = length (map (bit c) [bc - 8..<bc])"
      using assms by simp
  next
    fix i assume "i < length (map (bit (ucast (drop_bit (bc - 8) c) :: u8)) [0..<8])"
    then have i: "i < 8" by simp
    then show "map (bit (ucast (drop_bit (bc - 8) c) :: u8)) [0..<8] ! i = map (bit c) [bc - 8..<bc] ! i"
      using assms by (simp add: bit_ucast_iff bit_drop_bit_eq)
  qed
  then have b: "msb_bits (ucast (drop_bit (bc - 8) c) :: u8) 8 = rev (map (bit c) [bc - 8..<bc])"
    by (simp add: msb_bits_def)
  show ?thesis
    unfolding m a b using msb_bits_split [of "bc - 8" bc c] by simp
qed

lemma flushBytes_bits: "bw_bits (flushBytes bw) = bw_bits bw"
proof (induction bw rule: flushBytes.induct)
  case (1 bw)
  show ?case
  proof (cases "8 \<le> bitCount bw")
    case True
    show ?thesis
      using "1.IH" [OF True refl refl] True flush_step_bits [OF True, of "current bw"]
      by (subst flushBytes_ge) (simp_all add: bw_bits_def)
  next
    case False
    then show ?thesis by (simp add: flushBytes_lt)
  qed
qed

lemma append_bits:
  fixes c v :: u64
  assumes "bc + n \<le> 64"
  shows "msb_bits (push_bit n c OR (v AND (push_bit n 1 - 1))) (bc + n) = msb_bits c bc @ msb_bits v n"
proof -
  let ?x = "push_bit n c OR (v AND (push_bit n 1 - 1))"
  have m: "(push_bit n 1 - 1 :: u64) = mask n"
    by (simp add: mask_eq_exp_minus_1 push_bit_eq_mult)
  have lo: "msb_bits ?x n = msb_bits v n"
    unfolding m by (rule msb_bits_cong) (auto simp add: bit_or_iff bit_and_iff bit_mask_iff bit_push_bit_iff dest: bit_imp_le_length)
  have "map (bit ?x) [n..<bc + n] = map (bit c) [0..<bc]"
  proof (rule nth_equalityI)
    show "length (map (bit ?x) [n..<bc + n]) = length (map (bit c) [0..<bc])" by simp
  next
    fix i assume "i < length (map (bit ?x) [n..<bc + n])"
    then have i: "i < bc" by simp
    then show "map (bit ?x) [n..<bc + n] ! i = map (bit c) [0..<bc] ! i"
      using assms unfolding m
      by (simp add: bit_or_iff bit_and_iff bit_mask_iff bit_push_bit_iff)
  qed
  then have hi: "rev (map (bit ?x) [n..<bc + n]) = msb_bits c bc"
    by (simp add: msb_bits_def)
  show ?thesis
    using msb_bits_split [of n "bc + n" ?x] lo hi by simp
qed

lemma writeBits_bits:
  "bitCount bw + n \<le> 64 \<Longrightarrow> bw_bits (writeBits bw v n) = bw_bits bw @ msb_bits v n"
proof (cases "n = 0")
  case True
  then show ?thesis by (simp add: writeBits_def msb_bits_def)
next
  case False
  assume le: "bitCount bw + n \<le> 64"
  have "bw_bits (writeBits bw v n) =
        bw_bits (bw\<lparr>current := push_bit n (current bw) OR (v AND (push_bit n 1 - 1)),
                      bitCount := bitCount bw + n\<rparr>)"
    using False by (simp only: writeBits_def flushBytes_bits if_False)
  also have "\<dots> = bw_bits bw @ msb_bits v n"
    using append_bits [OF le, of "current bw" v] by (simp add: bw_bits_def)
  finally show ?thesis .
qed

lemma writeBits_bitCount: "0 < n \<Longrightarrow> bitCount (writeBits bw v n) < 8"
  by (simp add: writeBits_def flushBytes_bitCount)

lemma writeBits_bitCount_eq: "bitCount bw < 8 \<Longrightarrow> bitCount (writeBits bw v n) = (bitCount bw + n) mod 8"
  by (simp add: writeBits_def flushBytes_bitCount)

lemma writeBits_inv: "bitCount bw < 8 \<Longrightarrow> bitCount (writeBits bw v n) < 8"
  by (simp add: writeBits_def flushBytes_bitCount)

lemma writeBits_length:
  "length (buf (writeBits bw v n)) = length (buf bw) + (if n = 0 then 0 else (bitCount bw + n) div 8)"
  by (simp add: writeBits_def flushBytes_length)

lemma writeBits_prefix: "prefix (buf bw) (buf (writeBits bw v n))"
proof (cases "n = 0")
  case True
  then show ?thesis by (simp add: writeBits_def)
next
  case False
  then show ?thesis
    using flushBytes_prefix [of "bw\<lparr>current := push_bit n (current bw) OR (v AND (push_bit n 1 - 1)),
                          bitCount := bitCount bw + n\<rparr>"]
    by (simp add: writeBits_def)
qed

lemma writeBits_masked: "writeBits bw v n = writeBits bw (take_bit n v) n"
proof -
  have "v AND (push_bit n 1 - 1) = take_bit n v AND (push_bit n 1 - 1)"
    by (simp add: push_bit_eq_mult flip: mask_eq_exp_minus_1 take_bit_eq_mask)
  then show ?thesis by (simp only: writeBits_def)
qed



text \<open>
  Claim C3, as amended. For every writer state and every \<open>n\<close> with
  \<open>bitCount + n \<le> 64\<close> (so every \<open>n \<le> 57\<close> between two calls, where \<open>bitCount \<le> 7\<close>,
  and every \<open>n \<le> 64\<close> on a byte-aligned writer), \<open>writeBits\<close> appends exactly the low
  \<open>n\<close> bits of the value, most significant first, to the bit stream and leaves every bit
  written before unchanged; the bytes already emitted stay a prefix; \<open>n = 0\<close> is a no-op;
  the bits of the value above position \<open>n\<close> are ignored; and a writer holding fewer than 8
  pending bits still does afterwards.
\<close>

theorem writeBits_appends_low_bits:
  "bitCount bw + n \<le> 64 \<Longrightarrow>
     bw_bits (writeBits bw v n) = bw_bits bw @ msb_bits v n
     \<and> prefix (buf bw) (buf (writeBits bw v n))
     \<and> writeBits bw v 0 = bw
     \<and> writeBits bw v n = writeBits bw (take_bit n v) n
     \<and> (bitCount bw < 8 \<longrightarrow> bitCount (writeBits bw v n) < 8)"
  using writeBits_bits [of bw n v] writeBits_prefix [of bw v n] writeBits_masked [of bw v n]
    writeBits_inv [of bw v n]
  by (simp add: writeBits_def)

text \<open>
  The theorem at a writer holding the three bits 101, then given the low 7 bits of 0x1FF.
\<close>

theorem writeBits_appends_low_bits_witness:
  "bitCount (writeBits newBitWriter 5 3) + 7 \<le> 64
   \<and> bw_bits (writeBits (writeBits newBitWriter 5 3) 0x1FF 7)
       = [True, False, True, True, True, True, True, True, True, True]"
proof -
  have s: "writeBits newBitWriter 5 3 = \<lparr>buf = [], current = 5, bitCount = 3\<rparr>"
    by (simp add: writeBits_def newBitWriter_def flushBytes_lt)
  have h: "bitCount (writeBits newBitWriter 5 3) + 7 \<le> 64"
    by (simp add: s)
  have b: "bw_bits (writeBits newBitWriter 5 3) = [True, False, True]"
    unfolding s by code_simp
  have m: "msb_bits (0x1FF :: u64) 7 = [True, True, True, True, True, True, True]"
    by code_simp
  have "bw_bits (writeBits (writeBits newBitWriter 5 3) 0x1FF 7)
        = bw_bits (writeBits newBitWriter 5 3) @ msb_bits (0x1FF :: u64) 7"
    using writeBits_appends_low_bits [OF h, of "0x1FF"] by (rule conjunct1)
  then show ?thesis
    using h by (simp only: b m append.simps simp_thms)
qed

text \<open>
  Claim C3 as stated fails for \<open>n = 64\<close> on a writer that holds one pending bit 1: the
  64-bit accumulator shifts that bit out, and the stream then starts with a 0 bit.
\<close>

theorem writeBits_64_counterexample:
  "bitCount (writeBits newBitWriter 1 1) < 8
   \<and> bw_bits (writeBits newBitWriter 1 1) = [True]
   \<and> bw_bits (writeBits (writeBits newBitWriter 1 1) 0 64) \<noteq>
       bw_bits (writeBits newBitWriter 1 1) @ msb_bits (0 :: u64) 64
   \<and> take 1 (bw_bits (writeBits (writeBits newBitWriter 1 1) 0 64)) = [False]"
  by code_simp

section \<open>Byte-aligned writes\<close>

lemma writeBits_8_aligned:
  "bitCount bw = 0 \<Longrightarrow>
     writeBits bw v 8 = \<lparr>buf = buf bw @ [ucast v], current = 0, bitCount = 0\<rparr>"
proof -
  assume a: "bitCount bw = 0"
  have m: "(255 :: u64) = mask 8"
    by (simp add: mask_eq_exp_minus_1)
  have "(ucast (push_bit 8 (current bw) OR (v AND 255)) :: u8) = ucast v"
    unfolding m by (rule bit_eqI) (auto simp add: bit_simps)
  then show ?thesis
    using a by (simp add: writeBits_def flushBytes_ge flushBytes_lt)
qed

lemma writeBits_16_aligned:
  "bitCount bw = 0 \<Longrightarrow>
     writeBits bw v 16 = \<lparr>buf = buf bw @ [ucast (drop_bit 8 v), ucast v], current = 0, bitCount = 0\<rparr>"
proof -
  assume a: "bitCount bw = 0"
  let ?c = "push_bit 16 (current bw) OR (v AND 65535)"
  have m: "(255 :: u64) = mask 8" "(65535 :: u64) = mask 16"
    by (simp_all add: mask_eq_exp_minus_1)
  have 1: "(ucast (drop_bit 8 ?c) :: u8) = ucast (drop_bit 8 v)"
    unfolding m by (rule bit_eqI) (auto simp add: bit_simps)
  have 2: "(ucast (?c AND 255) :: u8) = ucast v"
    unfolding m by (rule bit_eqI) (auto simp add: bit_simps)
  show ?thesis
    using a 1 2 by (simp add: writeBits_def flushBytes_ge flushBytes_lt)
qed

lemma writeUTF8_aligned:
  assumes "bitCount bw = 0"
  shows "writeUTF8 bw v = \<lparr>buf = buf bw @
     (if v < 0x80 then [ucast v]
      else if v < 0x800 then [ucast (0xC0 OR drop_bit 6 v), ucast (0x80 OR (v AND 0x3F))]
      else if v < 0x10000 then
        [ucast (0xE0 OR drop_bit 12 v), ucast (0x80 OR (drop_bit 6 v AND 0x3F)), ucast (0x80 OR (v AND 0x3F))]
      else if v < 0x200000 then
        [ucast (0xF0 OR drop_bit 18 v), ucast (0x80 OR (drop_bit 12 v AND 0x3F)),
         ucast (0x80 OR (drop_bit 6 v AND 0x3F)), ucast (0x80 OR (v AND 0x3F))]
      else if v < 0x4000000 then
        [ucast (0xF8 OR drop_bit 24 v), ucast (0x80 OR (drop_bit 18 v AND 0x3F)),
         ucast (0x80 OR (drop_bit 12 v AND 0x3F)),
         ucast (0x80 OR (drop_bit 6 v AND 0x3F)), ucast (0x80 OR (v AND 0x3F))]
      else if v < 0x80000000 then
        [ucast (0xFC OR drop_bit 30 v), ucast (0x80 OR (drop_bit 24 v AND 0x3F)),
         ucast (0x80 OR (drop_bit 18 v AND 0x3F)), ucast (0x80 OR (drop_bit 12 v AND 0x3F)),
         ucast (0x80 OR (drop_bit 6 v AND 0x3F)), ucast (0x80 OR (v AND 0x3F))]
      else
        [ucast (0xFE OR drop_bit 36 v), ucast (0x80 OR (drop_bit 30 v AND 0x3F)),
         ucast (0x80 OR (drop_bit 24 v AND 0x3F)),
         ucast (0x80 OR (drop_bit 18 v AND 0x3F)), ucast (0x80 OR (drop_bit 12 v AND 0x3F)),
         ucast (0x80 OR (drop_bit 6 v AND 0x3F)), ucast (0x80 OR (v AND 0x3F))]),
     current = 0, bitCount = 0\<rparr>"
  using assms by (simp add: writeUTF8_def writeBits_8_aligned Let_def)


lemma writeUTF8_bitCount: "bitCount bw = 0 \<Longrightarrow> bitCount (writeUTF8 bw v) = 0"
  by (simp add: writeUTF8_aligned)

lemma writeUTF8_width:
  "bitCount bw = 0 \<Longrightarrow> length (buf (writeUTF8 bw v)) = length (buf bw) +
     (if v < 0x80 then 1 else if v < 0x800 then 2 else if v < 0x10000 then 3
      else if v < 0x200000 then 4 else if v < 0x4000000 then 5
      else if v < 0x80000000 then 6 else 7)"
  by (simp add: writeUTF8_aligned)

lemma writeUTF8_values:
  assumes "bitCount bw = 0"
  shows "buf (writeUTF8 bw 0) = buf bw @ [0x00]"
    and "buf (writeUTF8 bw 0x7F) = buf bw @ [0x7F]"
    and "buf (writeUTF8 bw 0x80) = buf bw @ [0xC2, 0x80]"
    and "buf (writeUTF8 bw 0x3FFF) = buf bw @ [0xE3, 0xBF, 0xBF]"
  using assms by (simp_all add: writeUTF8_aligned)

text \<open>
  Claim C6, as amended. On a byte-aligned writer \<open>writeUTF8\<close> emits the single byte 0x00
  for value 0, the single byte 0x7F for value 0x7F, the two bytes 0xC2 0x80 for value 0x80
  and the three bytes 0xE3 0xBF 0xBF for value 0x3FFF; it leaves the writer byte-aligned,
  and it emits 1, 2, 3, 4, 5, 6 or 7 bytes for a value below 0x80, 0x800, 0x10000,
  0x200000, 0x4000000, 0x80000000 or 0x1000000000.
\<close>

theorem writeUTF8_bytes:
  "bitCount bw = 0 \<Longrightarrow>
     bytes (writeUTF8 bw 0) = bytes bw @ [0x00]
     \<and> bytes (writeUTF8 bw 0x7F) = bytes bw @ [0x7F]
     \<and> bytes (writeUTF8 bw 0x80) = bytes bw @ [0xC2, 0x80]
     \<and> bytes (writeUTF8 bw 0x3FFF) = bytes bw @ [0xE3, 0xBF, 0xBF]
     \<and> bitCount (writeUTF8 bw v) = 0
     \<and> (v < 0x80 \<longrightarrow> length (bytes (writeUTF8 bw v)) = length (bytes bw) + 1)
     \<and> (0x80 \<le> v \<and> v < 0x800 \<longrightarrow> length (bytes (writeUTF8 bw v)) = length (bytes bw) + 2)
     \<and> (0x800 \<le> v \<and> v < 0x10000 \<longrightarrow> length (bytes (writeUTF8 bw v)) = length (bytes bw) + 3)
     \<and> (0x10000 \<le> v \<and> v < 0x200000 \<longrightarrow> length (bytes (writeUTF8 bw v)) = length (bytes bw) + 4)
     \<and> (0x200000 \<le> v \<and> v < 0x4000000 \<longrightarrow> length (bytes (writeUTF8 bw v)) = length (bytes bw) + 5)
     \<and> (0x4000000 \<le> v \<and> v < 0x80000000 \<longrightarrow> length (bytes (writeUTF8 bw v)) = length (bytes bw) + 6)
     \<and> (0x80000000 \<le> v \<and> v < 0x1000000000 \<longrightarrow> length (bytes (writeUTF8 bw v)) = length (bytes bw) + 7)"
proof -
  assume a: "bitCount bw = 0"
  have wd: "length (buf (writeUTF8 bw v)) = length (buf bw) +
     (if unat v < 0x80 then 1 else if unat v < 0x800 then 2 else if unat v < 0x10000 then 3
      else if unat v < 0x200000 then 4 else if unat v < 0x4000000 then 5
      else if unat v < 0x80000000 then 6 else 7)"
    using writeUTF8_width [OF a, of v] by (simp add: word_less_nat_alt)
  have widths:
    "v < 0x80 \<longrightarrow> length (buf (writeUTF8 bw v)) = length (buf bw) + 1"
    "0x80 \<le> v \<and> v < 0x800 \<longrightarrow> length (buf (writeUTF8 bw v)) = length (buf bw) + 2"
    "0x800 \<le> v \<and> v < 0x10000 \<longrightarrow> length (buf (writeUTF8 bw v)) = length (buf bw) + 3"
    "0x10000 \<le> v \<and> v < 0x200000 \<longrightarrow> length (buf (writeUTF8 bw v)) = length (buf bw) + 4"
    "0x200000 \<le> v \<and> v < 0x4000000 \<longrightarrow> length (buf (writeUTF8 bw v)) = length (buf bw) + 5"
    "0x4000000 \<le> v \<and> v < 0x80000000 \<longrightarrow> length (buf (writeUTF8 bw v)) = length (buf bw) + 6"
    "0x80000000 \<le> v \<and> v < 0x1000000000 \<longrightarrow> length (buf (writeUTF8 bw v)) = length (buf bw) + 7"
    unfolding wd by (simp_all add: word_less_nat_alt word_le_nat_alt)
  show ?thesis
    unfolding bytes_def
    using writeUTF8_values [OF a] writeUTF8_bitCount [OF a, of v] widths
    by blast
qed

text \<open>The theorem on a new writer, with the first three-byte value 0x800.\<close>

theorem writeUTF8_bytes_witness:
  "bitCount newBitWriter = 0
   \<and> bytes (writeUTF8 newBitWriter 0x80) = [0xC2, 0x80]
   \<and> bytes (writeUTF8 newBitWriter 0x3FFF) = [0xE3, 0xBF, 0xBF]
   \<and> (0x800 :: u64) \<le> 0x800 \<and> (0x800 :: u64) < 0x10000
   \<and> length (bytes (writeUTF8 newBitWriter 0x800)) = 3"
proof -
  have h: "bitCount newBitWriter = 0"
    by (simp add: newBitWriter_def)
  have e: "bytes newBitWriter = []"
    by (simp add: newBitWriter_def bytes_def)
  show ?thesis
    using writeUTF8_bytes [OF h, of "0x800"] h by (simp add: e)
qed

text \<open>
  Claim C6 as stated fails at 0x3FFF: the first byte is 0xE0 OR (0x3FFF >> 12) = 0xE3,
  so the sequence does not start with 0xEF 0xBF.
\<close>

theorem writeUTF8_3FFF_counterexample:
  "take 2 (bytes (writeUTF8 newBitWriter 0x3FFF)) \<noteq> [0xEF, 0xBF]"
  by code_simp

section \<open>Rice coding\<close>

lemma msb_bits_0 [simp]: "msb_bits v 0 = []"
  by (simp add: msb_bits_def)

lemma msb_bits_1: "msb_bits v (Suc 0) = [bit v 0]"
  by (simp add: msb_bits_def)

lemma write_zero_bit:
  "bitCount bw < 8 \<Longrightarrow> bw_bits (writeBits bw 0 (Suc 0)) = bw_bits bw @ [False]"
  using writeBits_bits [of bw "Suc 0" 0] by (simp add: msb_bits_1)

lemma write_one_bit:
  "bitCount bw < 8 \<Longrightarrow> bw_bits (writeBits bw 1 (Suc 0)) = bw_bits bw @ [True]"
  using writeBits_bits [of bw "Suc 0" 1] by (simp add: msb_bits_1)

lemma unary_zeros:
  "bitCount bw < 8 \<Longrightarrow>
     bw_bits (((\<lambda>bw. writeBits bw 0 (Suc 0)) ^^ q) bw) = bw_bits bw @ replicate q False
     \<and> bitCount (((\<lambda>bw. writeBits bw 0 (Suc 0)) ^^ q) bw) < 8"
proof (induction q)
  case 0
  then show ?case by simp
next
  case (Suc q)
  then show ?case
    by (simp add: write_zero_bit writeBits_inv replicate_append_same)
qed

lemma unary_zeros_prefix:
  "prefix (buf bw) (buf (((\<lambda>bw. writeBits bw 0 (Suc 0)) ^^ q) bw))"
proof (induction q)
  case 0
  then show ?case by simp
next
  case (Suc q)
  then show ?case
    using writeBits_prefix prefix_order.trans by fastforce
qed

lemma unat_zigzag:
  fixes r :: i32
  shows "unat (if r <s 0 then - 2 * r - 1 else 2 * r) = zigzag (sint r)"
proof -
  have lo: "- (2 ^ 31) \<le> sint r" and hi: "sint r < 2 ^ 31"
    using sint_ge [of r] sint_lt [of r] by simp_all
  have r: "r = word_of_int (sint r)" by simp
  show ?thesis
  proof (cases "r <s 0")
    case True
    then have neg: "sint r < 0" by (simp add: word_sless_alt)
    have "- 2 * r - 1 = (word_of_int (- 2 * sint r - 1) :: i32)"
      by simp
    then have "unat (- 2 * r - 1) = nat ((- 2 * sint r - 1) mod 2 ^ 32)"
      by (simp only: unat_eq_nat_uint uint_word_of_int) simp
    also have "\<dots> = nat (- 2 * sint r - 1)"
      using lo neg by (simp add: mod_pos_pos_trivial)
    finally show ?thesis using True neg by (simp add: zigzag_def)
  next
    case False
    then have pos: "0 \<le> sint r" by (simp add: word_sless_alt)
    have "2 * r = (word_of_int (2 * sint r) :: i32)"
      by simp
    then have "unat (2 * r) = nat ((2 * sint r) mod 2 ^ 32)"
      by (simp only: unat_eq_nat_uint uint_word_of_int) simp
    also have "\<dots> = nat (2 * sint r)"
      using hi pos by (simp add: mod_pos_pos_trivial)
    finally show ?thesis using False pos by (simp add: zigzag_def)
  qed
qed

lemma remainder_bits:
  fixes u :: u32
  shows "msb_bits (ucast (u AND (push_bit p 1 - 1)) :: u64) p = msb_bits (unat u) p"
proof -
  have m: "(push_bit p 1 - 1 :: u32) = mask p"
    by (simp add: mask_eq_exp_minus_1 push_bit_eq_mult)
  show ?thesis
    unfolding m msb_bits_def
    by (auto simp add: bit_simps dest: bit_imp_le_length)
qed

lemma encodeRice_bits_gen:
  assumes p: "unat p \<le> 14" and bc: "bitCount bw < 8"
  shows "bw_bits (encodeRice bw r p) =
           bw_bits bw @ replicate (zigzag (sint r) div 2 ^ unat p) False @ [True]
             @ msb_bits (zigzag (sint r)) (unat p)"
    and "bitCount (encodeRice bw r p) < 8"
proof -
  define u :: u32 where "u = (if r <s 0 then - 2 * r - 1 else 2 * r)"
  define b1 where "b1 = ((\<lambda>bw. writeBits bw 0 (Suc 0)) ^^ unat (drop_bit (unat p) u)) bw"
  define b2 where "b2 = writeBits b1 1 (Suc 0)"
  have e: "encodeRice bw r p = writeBits b2 (ucast (u AND (push_bit (unat p) 1 - 1))) (unat p)"
    by (simp add: encodeRice_def Let_def u_def b1_def b2_def)
  have uz: "unat u = zigzag (sint r)"
    unfolding u_def by (rule unat_zigzag)
  have "unat (drop_bit (unat p) u) = unat u div 2 ^ unat p"
    by (simp only: unat_drop_bit_eq) (simp only: drop_bit_eq_div)
  then have q: "unat (drop_bit (unat p) u) = zigzag (sint r) div 2 ^ unat p"
    by (simp only: uz)
  have z1: "bw_bits b1 = bw_bits bw @ replicate (zigzag (sint r) div 2 ^ unat p) False"
    and c1: "bitCount b1 < 8"
    using unary_zeros [OF bc, of "unat (drop_bit (unat p) u)"] by (simp_all add: b1_def q)
  have z2: "bw_bits b2 = bw_bits b1 @ [True]" and c2: "bitCount b2 < 8"
    using c1 by (simp_all add: b2_def write_one_bit writeBits_inv)
  have c3: "bitCount b2 + unat p \<le> 64"
    using c2 p by simp
  have "msb_bits (ucast (u AND (push_bit (unat p) 1 - 1)) :: u64) (unat p) = msb_bits (zigzag (sint r)) (unat p)"
    by (simp only: remainder_bits uz)
  then show "bw_bits (encodeRice bw r p) =
           bw_bits bw @ replicate (zigzag (sint r) div 2 ^ unat p) False @ [True]
             @ msb_bits (zigzag (sint r)) (unat p)"
    unfolding e using writeBits_bits [OF c3] z1 z2 by simp
  show "bitCount (encodeRice bw r p) < 8"
    unfolding e using c2 by (rule writeBits_inv)
qed

lemma encodeRice_prefix: "prefix (buf bw) (buf (encodeRice bw r p))"
proof -
  define u :: u32 where "u = (if r <s 0 then - 2 * r - 1 else 2 * r)"
  define b1 where "b1 = ((\<lambda>bw. writeBits bw 0 (Suc 0)) ^^ unat (drop_bit (unat p) u)) bw"
  define b2 where "b2 = writeBits b1 1 (Suc 0)"
  have e: "encodeRice bw r p = writeBits b2 (ucast (u AND (push_bit (unat p) 1 - 1))) (unat p)"
    by (simp add: encodeRice_def Let_def u_def b1_def b2_def)
  have "prefix (buf bw) (buf b1)"
    unfolding b1_def by (rule unary_zeros_prefix)
  also have "prefix (buf b1) (buf b2)"
    unfolding b2_def by (rule writeBits_prefix)
  also have "prefix (buf b2) (buf (encodeRice bw r p))"
    unfolding e by (rule writeBits_prefix)
  finally show ?thesis .
qed


text \<open>
  Claim C9. For every signed residual \<open>r\<close> and parameter \<open>p\<close> with \<open>0 \<le> p \<le> 14\<close>, on a
  writer between two calls (fewer than 8 pending bits), \<open>encodeRice\<close> appends to the bit
  stream the zigzag value \<open>u\<close> (\<open>2r\<close> for \<open>r \<ge> 0\<close>, \<open>-2r - 1\<close> for \<open>r < 0\<close>) as
  \<open>u >> p\<close> zero bits, a single one bit, and the low \<open>p\<close> bits of \<open>u\<close> most significant
  first (nothing when \<open>p = 0\<close>). In particular \<open>r = 0, p = 0\<close> appends 1,
  \<open>r = 1, p = 0\<close> appends 001 and \<open>r = -1, p = 0\<close> appends 01.
\<close>

theorem encodeRice_bits:
  "unat p \<le> 14 \<Longrightarrow> bitCount bw < 8 \<Longrightarrow>
     bw_bits (encodeRice bw r p) =
       bw_bits bw @ replicate (zigzag (sint r) div 2 ^ unat p) False @ [True]
         @ msb_bits (zigzag (sint r)) (unat p)
     \<and> bitCount (encodeRice bw r p) < 8
     \<and> bw_bits (encodeRice bw 0 0) = bw_bits bw @ [True]
     \<and> bw_bits (encodeRice bw 1 0) = bw_bits bw @ [False, False, True]
     \<and> bw_bits (encodeRice bw (- 1) 0) = bw_bits bw @ [False, True]"
proof -
  assume p: "unat p \<le> 14" and bc: "bitCount bw < 8"
  have p0: "unat (0 :: u8) \<le> 14" by simp
  have a: "bw_bits (encodeRice bw 0 0) = bw_bits bw @ [True]"
    using encodeRice_bits_gen(1) [OF p0 bc, of 0] by (simp add: zigzag_def)
  have b: "bw_bits (encodeRice bw 1 0) = bw_bits bw @ [False, False, True]"
    using encodeRice_bits_gen(1) [OF p0 bc, of 1] by (simp add: zigzag_def numeral_2_eq_2)
  have c: "bw_bits (encodeRice bw (- 1) 0) = bw_bits bw @ [False, True]"
    using encodeRice_bits_gen(1) [OF p0 bc, of "- 1"] by (simp add: zigzag_def)
  show ?thesis
    using encodeRice_bits_gen [OF p bc, of r] a b c by simp
qed

text \<open>The theorem on a new writer at \<open>r = 3\<close>, \<open>p = 2\<close>: \<open>u = 6\<close>, one zero, the one, then 10.\<close>

theorem encodeRice_bits_witness:
  "unat (2 :: u8) \<le> 14 \<and> bitCount newBitWriter < 8
   \<and> bw_bits (encodeRice newBitWriter 3 2) = [False, True, True, False]"
proof -
  have p: "unat (2 :: u8) \<le> 14" by simp
  have bc: "bitCount newBitWriter < 8" by (simp add: newBitWriter_def)
  have z: "zigzag 3 = 6" by (simp add: zigzag_def)
  have e: "bw_bits newBitWriter = []" by (simp add: newBitWriter_def bw_bits_def)
  have m: "msb_bits (6 :: nat) 2 = [True, False]"
    by code_simp
  have "bw_bits (encodeRice newBitWriter 3 2) =
       bw_bits newBitWriter @ replicate (zigzag (sint (3 :: i32)) div 2 ^ unat (2 :: u8)) False @ [True]
         @ msb_bits (zigzag (sint (3 :: i32))) (unat (2 :: u8))"
    using encodeRice_bits [OF p bc, of 3] by (rule conjunct1)
  then show ?thesis
    using p bc by (simp add: z e m)
qed

section \<open>The frame header\<close>

lemma sync_bytes:
  "writeBits (writeBits (writeBits newBitWriter 0x3FFE 14) 0 1) 0 1
     = \<lparr>buf = [0xFF, 0xF8], current = 0, bitCount = 0\<rparr>"
  by (simp add: writeBits_def newBitWriter_def flushBytes_lt flushBytes_ge)

lemma two_nibbles:
  fixes a b :: u8
  assumes "bitCount bw = 0"
  shows "writeBits (writeBits bw (ucast a) 4) (ucast b) 4
     = \<lparr>buf = buf bw @ [push_bit 4 a OR (b AND 0x0F)], current = 0, bitCount = 0\<rparr>"
proof -
  have m: "(15 :: u64) = mask 4" "(15 :: u8) = mask 4"
    by (simp_all add: mask_eq_exp_minus_1)
  have s1: "writeBits bw (ucast a) 4 = bw\<lparr>current := push_bit 4 (current bw) OR (ucast a AND 15), bitCount := 4\<rparr>"
    using assms by (simp add: writeBits_def flushBytes_lt)
  have byte: "(ucast (push_bit 4 (push_bit 4 (current bw) OR (ucast a AND 15)) OR (ucast b AND (15 :: u64))) :: u8)
        = push_bit 4 a OR (b AND 0x0F)"
    unfolding m by (rule bit_eqI) (auto simp add: bit_simps)
  show ?thesis
    unfolding s1 using byte by (simp add: writeBits_def flushBytes_lt flushBytes_ge)
qed

lemma pack_4_3_1:
  fixes a b :: u8 and c :: u64
  assumes "k1 + k3 = k4" "k4 + k4 = 8"
  shows "(ucast (push_bit k1 (push_bit k3 (push_bit k4 c OR (ucast a AND mask k4)) OR (ucast b AND mask k3))) :: u8)
        = push_bit k4 a OR push_bit k1 (b AND mask k3)"
  using assms by (intro bit_eqI) (auto simp add: bit_simps)

lemma nibble_three_one:
  fixes a b :: u8
  assumes "bitCount bw = 0"
  shows "writeBits (writeBits (writeBits bw (ucast a) 4) (ucast b) 3) 0 1
     = \<lparr>buf = buf bw @ [push_bit 4 a OR push_bit 1 (b AND 0x07)], current = 0, bitCount = 0\<rparr>"
proof -
  have m: "(15 :: u64) = mask 4" "(7 :: u64) = mask 3" "(7 :: u8) = mask 3"
    by (simp_all add: mask_eq_exp_minus_1)
  have s1: "writeBits bw (ucast a) 4 = bw\<lparr>current := push_bit 4 (current bw) OR (ucast a AND 15), bitCount := 4\<rparr>"
    using assms by (simp add: writeBits_def flushBytes_lt)
  have s2: "writeBits (writeBits bw (ucast a) 4) (ucast b) 3 =
      bw\<lparr>current := push_bit 3 (push_bit 4 (current bw) OR (ucast a AND 15)) OR (ucast b AND 7), bitCount := 7\<rparr>"
    unfolding s1 by (simp add: writeBits_def flushBytes_lt)
  define y where "y = push_bit 3 (push_bit 4 (current bw) OR (ucast a AND 15)) OR (ucast b AND (7 :: u64))"
  have byte: "(ucast (push_bit 1 y) :: u8) = push_bit 4 a OR push_bit 1 (b AND 0x07)"
    unfolding y_def m by (rule pack_4_3_1) simp_all
  have s3: "writeBits (bw\<lparr>current := y, bitCount := 7\<rparr>) 0 1 =
      \<lparr>buf = buf bw @ [ucast (push_bit 1 y)], current = 0, bitCount = 0\<rparr>"
    by (simp add: writeBits_def flushBytes_lt flushBytes_ge)
  show ?thesis
    unfolding s2 y_def [symmetric] s3 byte ..
qed

lemma frameHeaderCodes_eq:
  "frameHeaderCodes e n =
     \<lparr>buf = [0xFF, 0xF8,
             push_bit 4 (getBlockSizeCode (of_nat n)) OR (getSampleRateCode (sampleRate e) AND 0x0F),
             push_bit 4 (channels e - 1) OR push_bit 1 (getSampleSizeCode (bitsPerSample e) AND 0x07)],
      current = 0, bitCount = 0\<rparr>"
proof -
  let ?s0 = "\<lparr>buf = [0xFF, 0xF8 :: u8], current = 0, bitCount = 0\<rparr>"
  let ?B2 = "push_bit 4 (getBlockSizeCode (of_nat n)) OR (getSampleRateCode (sampleRate e) AND 0x0F)"
  let ?B3 = "push_bit 4 (channels e - 1) OR push_bit 1 (getSampleSizeCode (bitsPerSample e) AND 0x07)"
  let ?s1 = "\<lparr>buf = buf ?s0 @ [?B2], current = 0, bitCount = 0\<rparr>"
  have 1: "writeBits (writeBits ?s0 (ucast (getBlockSizeCode (of_nat n))) 4)
             (ucast (getSampleRateCode (sampleRate e))) 4 = ?s1"
    by (rule two_nibbles) simp
  have 2: "writeBits (writeBits (writeBits ?s1 (ucast (channels e - 1)) 4)
             (ucast (getSampleSizeCode (bitsPerSample e))) 3) 0 1
           = \<lparr>buf = buf ?s1 @ [?B3], current = 0, bitCount = 0\<rparr>"
    by (rule nibble_three_one) simp
  have 3: "buf ?s1 @ [?B3] = [0xFF, 0xF8, ?B2, ?B3]"
    by (simp only: bitWriter.select_convs append.simps)
  show ?thesis
    unfolding frameHeaderCodes_def Let_def sync_bytes 1 2 3 ..
qed

lemma writeUTF8_utf8_bytes:
  assumes "bitCount bw = 0"
  shows "writeUTF8 bw v = \<lparr>buf = buf bw @ utf8_bytes v, current = 0, bitCount = 0\<rparr>"
proof -
  have n: "bitCount newBitWriter = 0" by (simp add: newBitWriter_def)
  show ?thesis
    unfolding utf8_bytes_def bytes_def writeUTF8_aligned [OF assms] writeUTF8_aligned [OF n]
    by (simp add: newBitWriter_def)
qed

lemma ucast_u32_u64_u8: "(ucast (ucast (x :: u32) :: u64) :: u8) = ucast x"
  by (rule bit_eqI) (auto simp add: bit_simps)

lemma ucast_drop8_u32_u64_u8: "(ucast (drop_bit 8 (ucast (x :: u32) :: u64)) :: u8) = ucast (drop_bit 8 x)"
  by (rule bit_eqI) (auto simp add: bit_simps)

lemma frameHeader_eq:
  "frameHeader e n fn =
     \<lparr>buf = [0xFF, 0xF8,
             push_bit 4 (getBlockSizeCode (of_nat n)) OR (getSampleRateCode (sampleRate e) AND 0x0F),
             push_bit 4 (channels e - 1) OR push_bit 1 (getSampleSizeCode (bitsPerSample e) AND 0x07)]
            @ utf8_bytes fn @ blockSizeTrailer n @ sampleRateTrailer (sampleRate e),
      current = 0, bitCount = 0\<rparr>"
proof -
  let ?codes = "[0xFF, 0xF8,
             push_bit 4 (getBlockSizeCode (of_nat n)) OR (getSampleRateCode (sampleRate e) AND 0x0F),
             push_bit 4 (channels e - 1) OR push_bit 1 (getSampleSizeCode (bitsPerSample e) AND 0x07)]"
  define s1 where "s1 = writeUTF8 (frameHeaderCodes e n) fn"
  define s2 where "s2 = (if getBlockSizeCode (of_nat n) = 0x06 then writeBits s1 (of_int (int n - 1)) 8
                else if getBlockSizeCode (of_nat n) = 0x07 then writeBits s1 (of_int (int n - 1)) 16
                else s1)"
  have e1: "s1 = \<lparr>buf = ?codes @ utf8_bytes fn, current = 0, bitCount = 0\<rparr>"
    unfolding s1_def frameHeaderCodes_eq by (subst writeUTF8_utf8_bytes) simp_all
  have e2: "s2 = \<lparr>buf = (?codes @ utf8_bytes fn) @ blockSizeTrailer n, current = 0, bitCount = 0\<rparr>"
    unfolding s2_def e1 blockSizeTrailer_def Let_def
    by (simp add: writeBits_8_aligned writeBits_16_aligned del: append.simps)
  have e3: "(if getSampleRateCode (sampleRate e) = 0x0C then writeBits s2 (ucast (sampleRate e div 1000)) 8
         else if getSampleRateCode (sampleRate e) = 0x0D then writeBits s2 (ucast (sampleRate e)) 16
         else if getSampleRateCode (sampleRate e) = 0x0E then writeBits s2 (ucast (sampleRate e div 10)) 16
         else s2) = \<lparr>buf = ((?codes @ utf8_bytes fn) @ blockSizeTrailer n) @ sampleRateTrailer (sampleRate e),
                      current = 0, bitCount = 0\<rparr>"
    unfolding e2 sampleRateTrailer_def
    by (simp add: writeBits_8_aligned writeBits_16_aligned ucast_u32_u64_u8 ucast_drop8_u32_u64_u8 del: append.simps)
  have "frameHeader e n fn =
        (if getSampleRateCode (sampleRate e) = 0x0C then writeBits s2 (ucast (sampleRate e div 1000)) 8
         else if getSampleRateCode (sampleRate e) = 0x0D then writeBits s2 (ucast (sampleRate e)) 16
         else if getSampleRateCode (sampleRate e) = 0x0E then writeBits s2 (ucast (sampleRate e div 10)) 16
         else s2)"
    unfolding frameHeader_def Let_def s2_def s1_def ..
  then show ?thesis
    unfolding e3 by (simp only: append_assoc)
qed

section \<open>Subframes extend the byte buffer\<close>

text \<open>
  Whatever a subframe writes, the bytes the writer has emitted before stay a prefix of its
  bytes, and a writer holding fewer than 8 pending bits still does afterwards. A channel
  of fewer than two samples stops \<open>encodeSubframe\<close> in its warm-up loop.
\<close>

lemma writeBitsSigned_prefix: "prefix (buf bw) (buf (writeBitsSigned bw v n))"
  by (simp add: writeBitsSigned_def Let_def writeBits_prefix)

lemma writeBitsSigned_inv: "bitCount bw < 8 \<Longrightarrow> bitCount (writeBitsSigned bw v n) < 8"
  by (simp add: writeBitsSigned_def Let_def writeBits_inv)

lemma encodeRice_inv: "bitCount bw < 8 \<Longrightarrow> bitCount (encodeRice bw r p) < 8"
proof -
  assume bc: "bitCount bw < 8"
  define u :: u32 where "u = (if r <s 0 then - 2 * r - 1 else 2 * r)"
  define b1 where "b1 = ((\<lambda>bw. writeBits bw 0 (Suc 0)) ^^ unat (drop_bit (unat p) u)) bw"
  have e: "encodeRice bw r p =
      writeBits (writeBits b1 1 (Suc 0)) (ucast (u AND (push_bit (unat p) 1 - 1))) (unat p)"
    by (simp add: encodeRice_def Let_def u_def b1_def)
  have "bitCount b1 < 8"
    unfolding b1_def using unary_zeros [OF bc] by simp
  then show ?thesis
    unfolding e by (intro writeBits_inv)
qed

lemma foldl_encodeRice_prefix:
  "prefix (buf bw) (buf (foldl (\<lambda>bw r. encodeRice bw r p) bw rs))"
proof (induction rs arbitrary: bw)
  case Nil
  then show ?case by simp
next
  case (Cons r rs)
  have "prefix (buf bw) (buf (encodeRice bw r p))"
    by (rule encodeRice_prefix)
  also have "prefix \<dots> (buf (foldl (\<lambda>bw r. encodeRice bw r p) (encodeRice bw r p) rs))"
    by (rule Cons.IH)
  finally show ?case by simp
qed

lemma foldl_encodeRice_inv:
  "bitCount bw < 8 \<Longrightarrow> bitCount (foldl (\<lambda>bw r. encodeRice bw r p) bw rs) < 8"
  by (induction rs arbitrary: bw) (simp_all add: encodeRice_inv)

lemma encodeResidual_Inr:
  "\<exists>bw'. encodeResidual e bw rs = Inr bw' \<and> prefix (buf bw) (buf bw')
         \<and> (bitCount bw < 8 \<longrightarrow> bitCount bw' < 8)"
proof -
  define b1 where "b1 = writeBits (writeBits (writeBits bw 0 2) 0 4)
      (ucast (findOptimalRiceParameter rs)) 4"
  have e: "encodeResidual e bw rs =
      Inr (foldl (\<lambda>bw r. encodeRice bw r (findOptimalRiceParameter rs)) b1 rs)"
    by (simp add: encodeResidual_def Let_def b1_def)
  have "prefix (buf bw) (buf (writeBits bw 0 2))"
    by (rule writeBits_prefix)
  also have "prefix \<dots> (buf (writeBits (writeBits bw 0 2) 0 4))"
    by (rule writeBits_prefix)
  also have "prefix \<dots> (buf b1)"
    unfolding b1_def by (rule writeBits_prefix)
  also have "prefix \<dots> (buf (foldl (\<lambda>bw r. encodeRice bw r (findOptimalRiceParameter rs)) b1 rs))"
    by (rule foldl_encodeRice_prefix)
  finally have p: "prefix (buf bw) (buf (foldl (\<lambda>bw r. encodeRice bw r (findOptimalRiceParameter rs)) b1 rs))" .
  have "bitCount bw < 8 \<Longrightarrow> bitCount b1 < 8"
    unfolding b1_def by (intro writeBits_inv)
  then have "bitCount bw < 8 \<longrightarrow>
     bitCount (foldl (\<lambda>bw r. encodeRice bw r (findOptimalRiceParameter rs)) b1 rs) < 8"
    by (simp add: foldl_encodeRice_inv)
  with p e show ?thesis by simp
qed

lemma writeWarmup_short:
  "length s < 2 \<Longrightarrow> writeWarmup e bw s [0..<2] = Inl PanicIndexOutOfRange"
proof -
  assume "length s < 2"
  then consider "s = []" | x where "s = [x]"
    by (cases s; cases "tl s") auto
  moreover have u: "[0..<2] = [0, Suc 0]"
    by (simp add: upt_rec numeral_2_eq_2)
  ultimately show ?thesis
    by cases (simp_all add: u index_def)
qed

lemma writeWarmup_ok:
  assumes "2 \<le> length s"
  shows "\<exists>bw'. writeWarmup e bw s [0..<2] = Inr bw' \<and> prefix (buf bw) (buf bw')
         \<and> (bitCount bw < 8 \<longrightarrow> bitCount bw' < 8)"
proof -
  have u: "[0..<2] = [0, Suc 0]"
    by (simp add: upt_rec numeral_2_eq_2)
  let ?n = "unat (bitsPerSample e)"
  let ?b1 = "writeBitsSigned bw (scast (s ! 0)) ?n"
  let ?b2 = "writeBitsSigned ?b1 (scast (s ! Suc 0)) ?n"
  have w: "writeWarmup e bw s [0..<2] = Inr ?b2"
    using assms by (auto simp add: u index_def)
  have "prefix (buf bw) (buf ?b1)"
    by (rule writeBitsSigned_prefix)
  also have "prefix \<dots> (buf ?b2)"
    by (rule writeBitsSigned_prefix)
  finally have p: "prefix (buf bw) (buf ?b2)" .
  have "bitCount bw < 8 \<longrightarrow> bitCount ?b2 < 8"
    by (simp add: writeBitsSigned_inv)
  with w p show ?thesis by simp
qed

lemma fixedPredict_2:
  "2 \<le> i \<Longrightarrow> i < length s \<Longrightarrow>
     fixedPredict s (int i) 2 = Inr (2 * s ! (i - 1) - s ! (i - 2))"
  by (simp add: fixedPredict_def index_def bindE_def nat_diff_distrib')

lemma calcResiduals_ok:
  "\<forall>i \<in> set is. 2 \<le> i \<and> i < length s \<Longrightarrow>
     calcResiduals s 2 is = Inr (map (\<lambda>i. s ! i - (2 * s ! (i - 1) - s ! (i - 2))) is)"
  by (induction "is") (simp_all add: fixedPredict_2 index_def)

lemma encodeSubframe_short:
  "length s < 2 \<Longrightarrow> encodeSubframe e bw s = Inl PanicIndexOutOfRange"
  by (simp add: encodeSubframe_def Let_def writeWarmup_short)

lemma encodeSubframe_ok:
  assumes "2 \<le> length s"
  shows "\<exists>bw'. encodeSubframe e bw s = Inr bw' \<and> prefix (buf bw) (buf bw')
         \<and> (bitCount bw < 8 \<longrightarrow> bitCount bw' < 8)"
proof -
  define b0 where "b0 = writeBits (writeBits (writeBits bw 0 1) (0x08 OR of_nat 2) 6) 0 1"
  obtain b1 where w: "writeWarmup e b0 s [0..<2] = Inr b1" and p1: "prefix (buf b0) (buf b1)"
    and i1: "bitCount b0 < 8 \<longrightarrow> bitCount b1 < 8"
    using writeWarmup_ok [OF assms, of e b0] by blast
  let ?rs = "map (\<lambda>i. s ! i - (2 * s ! (i - 1) - s ! (i - 2))) [2..<length s]"
  have c: "calcResiduals s 2 [2..<length s] = Inr ?rs"
    by (rule calcResiduals_ok) simp
  obtain b2 where r: "encodeResidual e b1 ?rs = Inr b2" and p2: "prefix (buf b1) (buf b2)"
    and i2: "bitCount b1 < 8 \<longrightarrow> bitCount b2 < 8"
    using encodeResidual_Inr [of e b1 ?rs] by blast
  have e: "encodeSubframe e bw s = Inr b2"
    using assms w c r by (simp add: encodeSubframe_def Let_def b0_def)
  have "prefix (buf bw) (buf (writeBits bw 0 1))"
    by (rule writeBits_prefix)
  also have "prefix \<dots> (buf (writeBits (writeBits bw 0 1) (0x08 OR of_nat 2) 6))"
    by (rule writeBits_prefix)
  also have "prefix \<dots> (buf b0)"
    unfolding b0_def by (rule writeBits_prefix)
  also note p1
  also note p2
  finally have p: "prefix (buf bw) (buf b2)" .
  have "bitCount bw < 8 \<Longrightarrow> bitCount b0 < 8"
    unfolding b0_def by (intro writeBits_inv)
  with i1 i2 have "bitCount bw < 8 \<longrightarrow> bitCount b2 < 8" by blast
  with e p show ?thesis by simp
qed

lemma encodeSubframes_ok:
  "\<forall>s \<in> set ss. 2 \<le> length s \<Longrightarrow>
     \<exists>bw'. encodeSubframes e bw ss = Inr bw' \<and> prefix (buf bw) (buf bw')
         \<and> (bitCount bw < 8 \<longrightarrow> bitCount bw' < 8)"
proof (induction ss arbitrary: bw)
  case Nil
  then show ?case by simp
next
  case (Cons s ss)
  then have "2 \<le> length s" by simp
  then obtain b1 where e: "encodeSubframe e bw s = Inr b1" and p1: "prefix (buf bw) (buf b1)"
    and i1: "bitCount bw < 8 \<longrightarrow> bitCount b1 < 8"
    using encodeSubframe_ok [of s e bw] by blast
  obtain b2 where r: "encodeSubframes e b1 ss = Inr b2" and p2: "prefix (buf b1) (buf b2)"
    and i2: "bitCount b1 < 8 \<longrightarrow> bitCount b2 < 8"
    using Cons.IH [of b1] Cons.prems by auto
  from p1 p2 have "prefix (buf bw) (buf b2)" by (rule prefix_order.trans)
  with e r i1 i2 show ?case by simp
qed

lemma encodeSubframes_short:
  "ss \<noteq> [] \<Longrightarrow> \<forall>s \<in> set ss. length s < 2 \<Longrightarrow>
     encodeSubframes e bw ss = Inl PanicIndexOutOfRange"
  by (cases ss) (simp_all add: encodeSubframe_short)

lemma encodeSubframes_Inr:
  "encodeSubframes e bw ss = Inr bw' \<Longrightarrow>
     prefix (buf bw) (buf bw') \<and> (bitCount bw < 8 \<longrightarrow> bitCount bw' < 8)"
proof (induction ss arbitrary: bw)
  case Nil
  then show ?case by simp
next
  case (Cons s ss)
  from Cons.prems obtain b1 where e: "encodeSubframe e bw s = Inr b1"
    and r: "encodeSubframes e b1 ss = Inr bw'"
    by (auto split: sum.splits)
  have "2 \<le> length s"
    using e encodeSubframe_short [of s e bw] by (cases "length s < 2") simp_all
  then have p1: "prefix (buf bw) (buf b1)" and i1: "bitCount bw < 8 \<longrightarrow> bitCount b1 < 8"
    using encodeSubframe_ok [of s e bw] e by auto
  from Cons.IH [OF r] p1 i1 show ?case
    using prefix_order.trans by blast
qed

lemma alignToByte_prefix: "prefix (buf bw) (buf (alignToByte bw))"
  by (simp add: alignToByte_def writeBits_prefix)

lemma alignToByte_bitCount: "bitCount bw < 8 \<Longrightarrow> bitCount (alignToByte bw) = 0"
  by (simp add: alignToByte_def writeBits_bitCount_eq)

section \<open>The structure of a frame\<close>

lemma ucast_u8_u64_u8: "(ucast (ucast (x :: u8) :: u64) :: u8) = x"
  by (rule bit_eqI) (auto simp add: bit_simps dest: bit_imp_le_length)

lemma ucast_u16_u64_u8: "(ucast (ucast (x :: u16) :: u64) :: u8) = ucast x"
  by (rule bit_eqI) (auto simp add: bit_simps)

lemma ucast_drop8_u16_u64_u8: "(ucast (drop_bit 8 (ucast (x :: u16) :: u64)) :: u8) = ucast (drop_bit 8 x)"
  by (rule bit_eqI) (auto simp add: bit_simps)

text \<open>The bytes of a frame whose subframes were encoded.\<close>

lemma frame_tail:
  assumes h: "bitCount hd0 = 0"
    and s: "encodeSubframes e (writeBits hd0 (ucast (calculateCRC8 (bytes hd0))) 8) samples = Inr bw2"
  shows "\<exists>body. bytes (writeBits (alignToByte bw2) (ucast (calculateCRC16 (bytes (alignToByte bw2)))) 16)
     = bytes hd0 @ [calculateCRC8 (bytes hd0)] @ body
        @ [ucast (drop_bit 8 (calculateCRC16 (bytes hd0 @ [calculateCRC8 (bytes hd0)] @ body))),
           ucast (calculateCRC16 (bytes hd0 @ [calculateCRC8 (bytes hd0)] @ body))]"
proof -
  let ?c = "calculateCRC8 (bytes hd0)"
  let ?b1 = "writeBits hd0 (ucast ?c) 8"
  have b1: "?b1 = \<lparr>buf = buf hd0 @ [?c], current = 0, bitCount = 0\<rparr>"
    using writeBits_8_aligned [OF h, of "ucast ?c"] by (simp only: ucast_u8_u64_u8)
  have i2: "bitCount bw2 < 8"
    using encodeSubframes_Inr [OF s] by (simp add: b1)
  have "prefix (buf ?b1) (buf bw2)"
    using encodeSubframes_Inr [OF s] by simp
  also have "prefix (buf bw2) (buf (alignToByte bw2))"
    by (rule alignToByte_prefix)
  finally obtain body where body: "buf (alignToByte bw2) = (buf hd0 @ [?c]) @ body"
    unfolding b1 by (auto simp add: prefix_def)
  have a: "bitCount (alignToByte bw2) = 0"
    using i2 by (rule alignToByte_bitCount)
  let ?k = "calculateCRC16 (bytes (alignToByte bw2))"
  have "writeBits (alignToByte bw2) (ucast ?k) 16 =
      \<lparr>buf = buf (alignToByte bw2) @ [ucast (drop_bit 8 ?k), ucast ?k], current = 0, bitCount = 0\<rparr>"
    using writeBits_16_aligned [OF a, of "ucast ?k"]
    by (simp only: ucast_u16_u64_u8 ucast_drop8_u16_u64_u8)
  then have "bytes (writeBits (alignToByte bw2) (ucast ?k) 16) =
      buf (alignToByte bw2) @ [ucast (drop_bit 8 ?k), ucast ?k]"
    by (simp add: bytes_def)
  then show ?thesis
    unfolding bytes_def body by (intro exI [of _ body]) simp
qed

lemma frameBytes_Inr:
  assumes "frameBytes e samples fn = Inr f"
  shows "\<exists>body. f = bytes (frameHeader e (length (hd samples)) fn)
        @ [calculateCRC8 (bytes (frameHeader e (length (hd samples)) fn))] @ body
        @ [ucast (drop_bit 8 (calculateCRC16 (bytes (frameHeader e (length (hd samples)) fn)
              @ [calculateCRC8 (bytes (frameHeader e (length (hd samples)) fn))] @ body))),
           ucast (calculateCRC16 (bytes (frameHeader e (length (hd samples)) fn)
              @ [calculateCRC8 (bytes (frameHeader e (length (hd samples)) fn))] @ body))]"
proof -
  let ?h = "frameHeader e (length (hd samples)) fn"
  have h: "bitCount ?h = 0"
    by (simp add: frameHeader_eq)
  from assms obtain bw2 where
    s: "encodeSubframes e (writeBits ?h (ucast (calculateCRC8 (bytes ?h))) 8) samples = Inr bw2"
    and f: "f = bytes (writeBits (alignToByte bw2) (ucast (calculateCRC16 (bytes (alignToByte bw2)))) 16)"
    by (auto simp add: frameBytes_def Let_def split: if_splits list.splits sum.splits)
  show ?thesis
    unfolding f by (rule frame_tail [OF h s])
qed

lemma frameBytes_ok:
  assumes "length samples = unat (channels e)" "samples \<noteq> []"
    and "\<forall>s \<in> set samples. length s = n" "2 \<le> n"
  shows "\<exists>f. frameBytes e samples fn = Inr f"
proof -
  obtain s0 rest where sr: "samples = s0 # rest"
    using assms(2) by (cases samples) auto
  have ex: "\<not> list_ex (\<lambda>s. length s \<noteq> length s0) rest"
    using assms(3) by (simp add: sr list_ex_iff)
  have "\<forall>s \<in> set samples. 2 \<le> length s"
    using assms(3,4) by simp
  then obtain bw2 where
    "encodeSubframes e (writeBits (frameHeader e (length s0) fn)
        (ucast (calculateCRC8 (bytes (frameHeader e (length s0) fn)))) 8) samples = Inr bw2"
    using encodeSubframes_ok by blast
  then show ?thesis
    using assms(1) ex by (simp add: frameBytes_def Let_def sr)
qed

lemma frameBytes_short:
  assumes "length samples = unat (channels e)" "samples \<noteq> []"
    and "\<forall>s \<in> set samples. length s = n" "n < 2"
  shows "frameBytes e samples fn = Inl PanicIndexOutOfRange"
proof -
  obtain s0 rest where sr: "samples = s0 # rest"
    using assms(2) by (cases samples) auto
  have ex: "\<not> list_ex (\<lambda>s. length s \<noteq> length s0) rest"
    using assms(3) by (simp add: sr list_ex_iff)
  have "\<forall>s \<in> set samples. length s < 2"
    using assms(3,4) by simp
  then have "encodeSubframes e (writeBits (frameHeader e (length s0) fn)
        (ucast (calculateCRC8 (bytes (frameHeader e (length s0) fn)))) 8) samples = Inl PanicIndexOutOfRange"
    using assms(2) by (rule encodeSubframes_short [rotated])
  then show ?thesis
    using assms(1) ex by (simp add: frameBytes_def Let_def sr)
qed

text \<open>The frame does not depend on what the sink already holds.\<close>

lemma writeWarmup_sink: "writeWarmup (e\<lparr>w := x\<rparr>) bw s is = writeWarmup e bw s is"
  by (induction "is" arbitrary: bw) (simp_all split: sum.splits)

lemma encodeSubframe_sink: "encodeSubframe (e\<lparr>w := x\<rparr>) bw s = encodeSubframe e bw s"
  by (simp add: encodeSubframe_def encodeResidual_def [abs_def] writeWarmup_sink
      cong: sum.case_cong if_cong)

lemma encodeSubframes_sink: "encodeSubframes (e\<lparr>w := x\<rparr>) bw ss = encodeSubframes e bw ss"
  by (induction ss arbitrary: bw) (simp_all add: encodeSubframe_sink cong: sum.case_cong)

lemma frameHeader_sink: "frameHeader (e\<lparr>w := x\<rparr>) n fn = frameHeader e n fn"
  by (simp add: frameHeader_eq)

lemma frameBytes_sink: "frameBytes (e\<lparr>w := x\<rparr>) samples fn = frameBytes e samples fn"
  by (cases samples)
    (simp_all add: frameBytes_def frameHeader_sink encodeSubframe_sink encodeSubframes_sink Let_def
      cong: if_cong sum.case_cong)

section \<open>The Rice parameter\<close>

text \<open>
  An executable form of \<open>findOptimalRiceParameter\<close>: in exact arithmetic the mean is
  below 1 iff the sum is below the count, and otherwise the floor of its binary logarithm
  is that of the integer quotient, one less than its bit length.
\<close>

lemma mean_less_one: "0 < n \<Longrightarrow> (real s / real n < 1) = (s < n)"
  by simp

lemma floor_log2_quotient:
  assumes n: "0 < n" and s: "n \<le> s"
  shows "\<lfloor>log 2 (real s / real n)\<rfloor> = int (floorlog 2 (s div n) - 1)"
proof -
  let ?q = "s div n"
  let ?K = "floorlog 2 ?q - 1"
  have q: "0 < ?q"
    using n s by (simp add: div_greater_zero_iff)
  then have f: "0 < floorlog 2 ?q"
    by (simp add: floorlog_def)
  have lo: "2 ^ ?K \<le> ?q" and hi: "?q < 2 ^ floorlog 2 ?q"
    using floorlog_bounds [of ?q 2] q by simp_all
  have "2 ^ ?K * n \<le> ?q * n"
    using lo by simp
  also have "\<dots> \<le> s"
    by simp
  finally have "real (2 ^ ?K * n) \<le> real s"
    by (simp only: of_nat_le_iff)
  then have a: "2 ^ ?K \<le> real s / real n"
    using n by (simp add: pos_le_divide_eq)
  have "Suc ?q \<le> 2 ^ floorlog 2 ?q"
    using hi by simp
  then have "Suc ?q * n \<le> 2 ^ floorlog 2 ?q * n"
    by (rule mult_le_mono1)
  moreover have "s < Suc ?q * n"
  proof -
    have "s = ?q * n + s mod n" by simp
    moreover have "s mod n < n" using n by simp
    moreover have "Suc ?q * n = ?q * n + n" by simp
    ultimately show ?thesis by linarith
  qed
  ultimately have "s < 2 ^ floorlog 2 ?q * n"
    by simp
  then have "real s < real (2 ^ floorlog 2 ?q * n)"
    by (simp only: of_nat_less_iff)
  then have "real s / real n < 2 ^ floorlog 2 ?q"
    using n by (simp add: pos_divide_less_eq)
  moreover have "floorlog 2 ?q = Suc ?K"
    using f by simp
  ultimately have b: "real s / real n < 2 ^ Suc ?K"
    by simp
  have pos: "0 < real s / real n"
    using n s by simp
  have "2 powr real_of_int (int ?K) \<le> real s / real n \<and> real s / real n < 2 powr real_of_int (int ?K + 1)"
    using a b by (simp add: powr_realpow add.commute flip: of_nat_Suc)
  then show ?thesis
    using floor_log_eq_powr_iff [OF pos, of 2 "int ?K"] by simp
qed

lemma findOptimalRiceParameter_code [code]:
  "findOptimalRiceParameter residuals =
     (if length residuals = 0 then 0
      else
        let sum = foldl (\<lambda>sum r. if r <s 0 then sum + scast (- r) else sum + scast r)
                        (0 :: u64) residuals
        in if unat sum < length residuals then 0
           else let param = (of_nat (floorlog 2 (unat sum div length residuals) - 1) :: u8)
                in if param > 14 then 14 else param)"
proof (cases "length residuals = 0")
  case True
  then show ?thesis by (simp add: findOptimalRiceParameter_def)
next
  case False
  define sum where "sum = foldl (\<lambda>sum r. if r <s 0 then sum + scast (- r) else sum + scast r)
                        (0 :: u64) residuals"
  have n: "0 < length residuals" using False by simp
  have lt: "(real (unat sum) / real (length residuals) < 1) = (unat sum < length residuals)"
    by (rule mean_less_one) (rule n)
  show ?thesis
  proof (cases "unat sum < length residuals")
    case True
    then show ?thesis
      using False
      by (simp only: findOptimalRiceParameter_def Let_def lt if_True if_False flip: sum_def)
  next
    case ge: False
    then have "length residuals \<le> unat sum" by simp
    from floor_log2_quotient [OF n this]
    have "(of_int \<lfloor>log 2 (real (unat sum) / real (length residuals))\<rfloor> :: u8)
        = of_nat (floorlog 2 (unat sum div length residuals) - 1)"
      by (simp only: of_int_of_nat_eq)
    then show ?thesis
      using False ge
      by (simp only: findOptimalRiceParameter_def Let_def lt if_True if_False flip: sum_def)
  qed
qed

lemma findOptimalRiceParameter_le_14: "findOptimalRiceParameter rs \<le> 14"
  by (auto simp add: findOptimalRiceParameter_def Let_def)

section \<open>The checksums of a frame\<close>

lemma EncodeFrame_eq:
  "EncodeFrame e samples fn =
     (case frameBytes e samples fn of Inl err \<Rightarrow> Inl err | Inr f \<Rightarrow> Inr (e\<lparr>w := w e @ f\<rparr>))"
  by (simp add: EncodeFrame_def Write_def split: sum.splits)

lemma utf8_bytes_small: "v < 0x80 \<Longrightarrow> utf8_bytes v = [ucast v]"
  by (simp add: utf8_bytes_def bytes_def writeUTF8_aligned newBitWriter_def)

subsection \<open>The checksum loops compute remainders of polynomial division\<close>

lemma length_gf2_add: "length (gf2_add xs ys) = max (length xs) (length ys)"
  by (induction xs ys rule: gf2_add.induct) simp_all

lemma gf2_add_Nil2 [simp]: "gf2_add xs [] = xs"
  by (cases xs) simp_all








lemma length_gf2_shift: "r \<noteq> [] \<Longrightarrow> length p = length r \<Longrightarrow> length (gf2_shift p r) = length r"
  by (cases r) (simp_all add: gf2_shift_def length_gf2_add)


lemma length_gf2_shift_funpow:
  "r \<noteq> [] \<Longrightarrow> length p = length r \<Longrightarrow> length ((gf2_shift p ^^ k) r) = length r"
  by (induction k) (simp_all add: length_gf2_shift flip: length_greater_0_conv)





















section \<open>The stream header\<close>

lemma WriteStreamInfo_Inr:
  "\<exists>si. WriteStreamInfo e = Inr (e\<lparr>w := w e @ [0x66, 0x4C, 0x61, 0x43, 0x80, 0x00, 0x00] @ si\<rparr>)
        \<and> length si = 34"
proof -
  define s0 where "s0 = PutUint16 (PutUint16 (replicate 34 (0 :: u8)) 0 (ucast (blockSize e))) 2 (ucast (blockSize e))"
  define s1 where "s1 = PutUint32 (s0[4 := 0, 5 := 0, 6 := 0, 7 := 0, 8 := 0, 9 := 0,
       10 := ucast (drop_bit 12 (sampleRate e)),
       11 := ucast (drop_bit 4 (sampleRate e)),
       12 := ucast (push_bit 4 (sampleRate e AND 0x0F)) OR push_bit 1 (channels e - 1)
                OR drop_bit 4 (bitsPerSample e - 1),
       13 := push_bit 4 ((bitsPerSample e - 1) AND 0x0F) OR ucast (drop_bit 32 (totalSamples e))])
       14 (ucast (totalSamples e))"
  define n where "n = min 16 (length (md5sum e))"
  have l: "length s1 = 34"
    by (simp add: s1_def s0_def PutUint16_def PutUint32_def)
  have "WriteStreamInfo e = Inr (e\<lparr>w := w e @ [0x66, 0x4C, 0x61, 0x43, 0x80, 0x00, 0x00]
           @ (take 18 s1 @ take n (md5sum e) @ drop (18 + n) s1)\<rparr>)"
    by (simp add: WriteStreamInfo_def Write_def Let_def s1_def s0_def n_def numeral_3_eq_3)
  moreover have "length (take 18 s1 @ take n (md5sum e) @ drop (18 + n) s1) = 34"
    using l by (auto simp add: n_def)
  ultimately show ?thesis by blast
qed

section \<open>The block loop\<close>

lemma sliceRange_length:
  "sliceRange s lo hi = Inr blk \<Longrightarrow> length blk = hi - lo"
  by (auto simp add: sliceRange_def cap_def split: if_splits)

lemma sliceRange_within:
  "lo \<le> hi \<Longrightarrow> hi \<le> len s \<Longrightarrow> sliceRange s lo hi = Inr (take (hi - lo) (drop lo (elems s)))"
  by (simp add: sliceRange_def cap_def len_def)

lemma extractBlock_lengths:
  "extractBlock samples start stop chs = Inr blks \<Longrightarrow>
     length blks = length chs \<and> (\<forall>b \<in> set blks. length b = stop - start)"
proof (induction chs arbitrary: blks)
  case Nil
  then show ?case by simp
next
  case (Cons ch chs)
  from Cons.prems obtain blk rest where
    b: "sliceRange (samples ! ch) start stop = Inr blk"
    and r: "extractBlock samples start stop chs = Inr rest"
    and e: "blks = blk # rest"
    by (auto split: if_splits sum.splits)
  from Cons.IH [OF r] sliceRange_length [OF b] e show ?case by simp
qed

lemma extractBlock_within:
  "\<forall>ch \<in> set chs. ch < length samples \<Longrightarrow> \<forall>s \<in> set samples. stop \<le> len s \<Longrightarrow> start \<le> stop \<Longrightarrow>
     extractBlock samples start stop chs
       = Inr (map (\<lambda>ch. take (stop - start) (drop start (elems (samples ! ch)))) chs)"
  by (induction chs) (simp_all add: sliceRange_within)

lemma extractBlock_rect:
  assumes "\<forall>s \<in> set samples. len s = N" and "j * B \<le> N"
  shows "extractBlock samples (j * B) (if j * B + B > N then N else j * B + B) [0..<length samples]
       = Inr (blockAt samples B j)"
proof -
  let ?stop = "if j * B + B > N then N else j * B + B"
  have 1: "\<forall>s \<in> set samples. ?stop \<le> len s"
    using assms by auto
  have 2: "j * B \<le> ?stop"
    using assms by auto
  have t: "take (?stop - j * B) (drop (j * B) (elems s)) = take B (drop (j * B) (elems s))"
    if "s \<in> set samples" for s
    using assms that by (auto simp add: len_def)
  have "extractBlock samples (j * B) ?stop [0..<length samples]
       = Inr (map (\<lambda>ch. take (?stop - j * B) (drop (j * B) (elems (samples ! ch)))) [0..<length samples])"
    by (rule extractBlock_within [OF _ 1 2]) simp
  also have "map (\<lambda>ch. take (?stop - j * B) (drop (j * B) (elems (samples ! ch)))) [0..<length samples]
      = map (\<lambda>s. take (?stop - j * B) (drop (j * B) (elems s))) samples"
    by (rule nth_equalityI) simp_all
  also have "\<dots> = blockAt samples B j"
    unfolding blockAt_def using t by (intro map_cong refl) 
  finally show ?thesis .
qed

lemma blockAt_shape:
  assumes "\<forall>s \<in> set samples. len s = N"
  shows "length (blockAt samples B j) = length samples"
    and "\<forall>b \<in> set (blockAt samples B j). length b = min B (N - j * B)"
  using assms by (auto simp add: blockAt_def len_def)

lemma encodeBlocks_done: "\<not> i < nblocks \<Longrightarrow> encodeBlocks e samples N i nblocks = Inr e"
  by (subst encodeBlocks.simps) simp

lemma encodeBlocks_step:
  assumes "length samples = unat (channels e)" "\<forall>s \<in> set samples. len s = N"
    and "i < nblocks" "i * unat (blockSize e) \<le> N"
  shows "encodeBlocks e samples N i nblocks =
     (case frameBytes e (blockAt samples (unat (blockSize e)) i) (of_nat i) of
        Inl err \<Rightarrow> Inl err
      | Inr f \<Rightarrow> encodeBlocks (e\<lparr>w := w e @ f\<rparr>) samples N (Suc i) nblocks)"
proof -
  have x: "extractBlock samples (i * unat (blockSize e))
      (if i * unat (blockSize e) + unat (blockSize e) > N then N
       else i * unat (blockSize e) + unat (blockSize e)) [0..<unat (channels e)]
       = Inr (blockAt samples (unat (blockSize e)) i)"
    using extractBlock_rect [OF assms(2,4)] assms(1) by simp
  show ?thesis
    using assms(3)
    by (subst encodeBlocks.simps) (simp add: Let_def x EncodeFrame_eq split: sum.splits)
qed

lemma ceil_div_less:
  fixes B :: nat
  assumes "0 < B" "i < (N + B - 1) div B"
  shows "i * B < N"
proof -
  have "Suc i \<le> (N + B - 1) div B"
    using assms(2) by simp
  then have "Suc i * B \<le> N + B - 1"
    using assms(1) by (simp add: less_eq_div_iff_mult_less_eq)
  then show ?thesis
    using assms(1) by simp
qed

lemma blockAt_nonempty: "samples \<noteq> [] \<Longrightarrow> blockAt samples B j \<noteq> []"
  by (simp add: blockAt_def)

lemma frame_of_block_ok:
  assumes "length samples = unat (channels e)" "samples \<noteq> []"
    and "\<forall>s \<in> set samples. len s = N" and "2 \<le> min B (N - j * B)"
  shows "\<exists>f. frameBytes e (blockAt samples B j) fn = Inr f"
proof (rule frameBytes_ok [where n = "min B (N - j * B)"])
  show "length (blockAt samples B j) = unat (channels e)"
    using assms(1) blockAt_shape(1) [OF assms(3)] by simp
  show "blockAt samples B j \<noteq> []"
    using assms(2) by (rule blockAt_nonempty)
  show "\<forall>s \<in> set (blockAt samples B j). length s = min B (N - j * B)"
    by (rule blockAt_shape(2) [OF assms(3)])
  show "2 \<le> min B (N - j * B)"
    by (rule assms(4))
qed

lemma frame_of_block_short:
  assumes "length samples = unat (channels e)" "samples \<noteq> []"
    and "\<forall>s \<in> set samples. len s = N" and "min B (N - j * B) < 2"
  shows "frameBytes e (blockAt samples B j) fn = Inl PanicIndexOutOfRange"
proof (rule frameBytes_short [where n = "min B (N - j * B)"])
  show "length (blockAt samples B j) = unat (channels e)"
    using assms(1) blockAt_shape(1) [OF assms(3)] by simp
  show "blockAt samples B j \<noteq> []"
    using assms(2) by (rule blockAt_nonempty)
  show "\<forall>s \<in> set (blockAt samples B j). length s = min B (N - j * B)"
    by (rule blockAt_shape(2) [OF assms(3)])
  show "min B (N - j * B) < 2"
    by (rule assms(4))
qed

text \<open>A last block of one sample stops the loop with the panic of \<open>encodeSubframe\<close>.\<close>

lemma encodeBlocks_panic_aux:
  "length samples = unat (channels e) \<Longrightarrow> samples \<noteq> [] \<Longrightarrow>
   \<forall>s \<in> set samples. len s = k * B + 1 \<Longrightarrow> unat (blockSize e) = B \<Longrightarrow> 2 \<le> B \<Longrightarrow>
   i + d = k \<Longrightarrow>
     encodeBlocks e samples (k * B + 1) i (Suc k) = Inl PanicIndexOutOfRange"
proof (induction d arbitrary: e i)
  case 0
  then have ik: "i = k" by simp
  have "min B (k * B + 1 - k * B) < 2"
    by simp
  then have f: "frameBytes e (blockAt samples B k) (of_nat k) = Inl PanicIndexOutOfRange"
    using "0.prems"(1,2,3) by (intro frame_of_block_short)
  have "encodeBlocks e samples (k * B + 1) k (Suc k) =
     (case frameBytes e (blockAt samples (unat (blockSize e)) k) (of_nat k) of
        Inl err \<Rightarrow> Inl err
      | Inr f \<Rightarrow> encodeBlocks (e\<lparr>w := w e @ f\<rparr>) samples (k * B + 1) (Suc k) (Suc k))"
    using "0.prems"(1,3) by (intro encodeBlocks_step) (simp_all add: "0.prems"(4))
  then show ?case
    by (simp only: ik "0.prems"(4) f sum.case)
next
  case (Suc d)
  then have ik: "Suc i \<le> k" by simp
  then have "Suc i * B \<le> k * B"
    by (rule mult_le_mono1)
  then have full: "i * B + B \<le> k * B" by simp
  then have "2 \<le> min B (k * B + 1 - i * B)"
    using Suc.prems(5) by simp
  then obtain f where f: "frameBytes e (blockAt samples B i) (of_nat i) = Inr f"
    using frame_of_block_ok [OF Suc.prems(1,2,3), of B i "of_nat i"] by blast
  have step: "encodeBlocks e samples (k * B + 1) i (Suc k) =
     (case frameBytes e (blockAt samples (unat (blockSize e)) i) (of_nat i) of
        Inl err \<Rightarrow> Inl err
      | Inr f \<Rightarrow> encodeBlocks (e\<lparr>w := w e @ f\<rparr>) samples (k * B + 1) (Suc i) (Suc k))"
    using Suc.prems(1,3) ik full by (intro encodeBlocks_step) (simp_all add: Suc.prems(4))
  have "encodeBlocks (e\<lparr>w := w e @ f\<rparr>) samples (k * B + 1) (Suc i) (Suc k) = Inl PanicIndexOutOfRange"
  proof (rule Suc.IH)
    show "length samples = unat (channels (e\<lparr>w := w e @ f\<rparr>))"
      using Suc.prems(1) by simp
    show "samples \<noteq> []" by (rule Suc.prems(2))
    show "\<forall>s \<in> set samples. len s = k * B + 1" by (rule Suc.prems(3))
    show "unat (blockSize (e\<lparr>w := w e @ f\<rparr>)) = B"
      using Suc.prems(4) by simp
    show "2 \<le> B" by (rule Suc.prems(5))
    show "Suc i + d = k" using Suc.prems(6) by simp
  qed
  then show ?case
    by (simp only: step Suc.prems(4) f sum.case)
qed

lemma encodeBlocks_panic:
  assumes "length samples = unat (channels e)" "samples \<noteq> []"
    and "\<forall>s \<in> set samples. len s = N"
    and B: "2 \<le> unat (blockSize e)" and m: "N mod unat (blockSize e) = 1"
  shows "encodeBlocks e samples N 0 ((N + unat (blockSize e) - 1) div unat (blockSize e))
       = Inl PanicIndexOutOfRange"
proof -
  define B where "B = unat (blockSize e)"
  define k where "k = N div B"
  have N: "N = k * B + 1"
    using m div_mult_mod_eq [of N B] by (simp add: B_def k_def)
  have "N + B - 1 = Suc k * B"
    by (simp add: N)
  then have t: "(N + B - 1) div B = Suc k"
    using B by (simp add: B_def)
  have "encodeBlocks e samples (k * B + 1) 0 (Suc k) = Inl PanicIndexOutOfRange"
  proof (rule encodeBlocks_panic_aux)
    show "length samples = unat (channels e)" by (rule assms(1))
    show "samples \<noteq> []" by (rule assms(2))
    show "\<forall>s \<in> set samples. len s = k * B + 1"
      using assms(3) N by simp
    show "unat (blockSize e) = B" by (simp add: B_def)
    show "2 \<le> B" using B by (simp add: B_def)
    show "0 + k = k" by simp
  qed
  then show ?thesis
    unfolding B_def [symmetric] t N [symmetric] .
qed

text \<open>With no block of one sample, every block becomes a frame.\<close>

lemma block_length_ge_2:
  fixes B :: nat
  assumes "2 \<le> B" "N mod B \<noteq> 1" "i * B < N"
  shows "2 \<le> min B (N - i * B)"
proof -
  have "N - i * B \<noteq> 1"
  proof
    assume "N - i * B = 1"
    then have "N = 1 + i * B" using assms(3) by simp
    then have "N mod B = (1 + i * B) mod B" by (rule arg_cong)
    also have "\<dots> = 1 mod B" by (rule mod_mult_self1)
    also have "\<dots> = 1" using assms(1) by simp
    finally show False using assms(2) by simp
  qed
  then show ?thesis using assms(1,3) by simp
qed

lemma encodeBlocks_ok_aux:
  "length samples = unat (channels e) \<Longrightarrow> samples \<noteq> [] \<Longrightarrow>
   \<forall>s \<in> set samples. len s = N \<Longrightarrow> unat (blockSize e) = B \<Longrightarrow> 2 \<le> B \<Longrightarrow> N mod B \<noteq> 1 \<Longrightarrow>
   i + d = (N + B - 1) div B \<Longrightarrow>
     \<exists>fs. length fs = d
        \<and> (\<forall>j < d. frameBytes e (blockAt samples B (i + j)) (of_nat (i + j)) = Inr (fs ! j))
        \<and> encodeBlocks e samples N i ((N + B - 1) div B) = Inr (e\<lparr>w := w e @ concat fs\<rparr>)"
proof (induction d arbitrary: e i)
  case 0
  then have "\<not> i < (N + B - 1) div B" by simp
  then have "encodeBlocks e samples N i ((N + B - 1) div B) = Inr e"
    by (rule encodeBlocks_done)
  then show ?case by simp
next
  case (Suc d)
  let ?nb = "(N + B - 1) div B"
  from Suc.prems(7) have lt: "i < ?nb" by simp
  have pos: "0 < B" using Suc.prems(5) by simp
  have iB: "i * B < N"
    using pos lt by (rule ceil_div_less)
  have "2 \<le> min B (N - i * B)"
    using Suc.prems(5,6) iB by (rule block_length_ge_2)
  then obtain f where f: "frameBytes e (blockAt samples B i) (of_nat i) = Inr f"
    using frame_of_block_ok [OF Suc.prems(1,2,3), of B i "of_nat i"] by blast
  have step: "encodeBlocks e samples N i ?nb =
     (case frameBytes e (blockAt samples (unat (blockSize e)) i) (of_nat i) of
        Inl err \<Rightarrow> Inl err
      | Inr f \<Rightarrow> encodeBlocks (e\<lparr>w := w e @ f\<rparr>) samples N (Suc i) ?nb)"
    using Suc.prems(1,3) lt iB by (intro encodeBlocks_step) (simp_all add: Suc.prems(4))
  let ?e = "e\<lparr>w := w e @ f\<rparr>"
  have "\<exists>fs. length fs = d
        \<and> (\<forall>j < d. frameBytes ?e (blockAt samples B (Suc i + j)) (of_nat (Suc i + j)) = Inr (fs ! j))
        \<and> encodeBlocks ?e samples N (Suc i) ?nb = Inr (?e\<lparr>w := w ?e @ concat fs\<rparr>)"
  proof (rule Suc.IH)
    show "length samples = unat (channels ?e)"
      using Suc.prems(1) by simp
    show "samples \<noteq> []" by (rule Suc.prems(2))
    show "\<forall>s \<in> set samples. len s = N" by (rule Suc.prems(3))
    show "unat (blockSize ?e) = B"
      using Suc.prems(4) by simp
    show "2 \<le> B" by (rule Suc.prems(5))
    show "N mod B \<noteq> 1" by (rule Suc.prems(6))
    show "Suc i + d = ?nb" using Suc.prems(7) by simp
  qed
  then obtain fs where l: "length fs = d"
    and a: "\<forall>j < d. frameBytes e (blockAt samples B (Suc i + j)) (of_nat (Suc i + j)) = Inr (fs ! j)"
    and r: "encodeBlocks ?e samples N (Suc i) ?nb = Inr (e\<lparr>w := w e @ concat (f # fs)\<rparr>)"
    by (auto simp add: frameBytes_sink)
  have "\<forall>j < Suc d. frameBytes e (blockAt samples B (i + j)) (of_nat (i + j)) = Inr ((f # fs) ! j)"
  proof (intro allI impI)
    fix j assume "j < Suc d"
    then show "frameBytes e (blockAt samples B (i + j)) (of_nat (i + j)) = Inr ((f # fs) ! j)"
      using f a by (cases j) simp_all
  qed
  moreover have "encodeBlocks e samples N i ?nb = Inr (e\<lparr>w := w e @ concat (f # fs)\<rparr>)"
    by (simp only: step Suc.prems(4) f sum.case r)
  moreover have "length (f # fs) = Suc d"
    using l by simp
  ultimately show ?case by blast
qed

section \<open>Encode\<close>

lemma Encode_eq:
  assumes "samples \<noteq> []" "blockSize e \<noteq> 0"
  shows "\<exists>si. length si = 34 \<and>
     Encode e samples =
       encodeBlocks (e\<lparr>w := w e @ [0x66, 0x4C, 0x61, 0x43, 0x80, 0x00, 0x00] @ si\<rparr>) samples
         (len (hd samples)) 0
         ((len (hd samples) + unat (blockSize e) - 1) div unat (blockSize e))"
proof -
  obtain si where s: "WriteStreamInfo e = Inr (e\<lparr>w := w e @ [0x66, 0x4C, 0x61, 0x43, 0x80, 0x00, 0x00] @ si\<rparr>)"
    and l: "length si = 34"
    using WriteStreamInfo_Inr [of e] by blast
  obtain s0 rest where sr: "samples = s0 # rest"
    using assms(1) by (cases samples) auto
  have "unat (blockSize e) \<noteq> 0"
    using assms(2) by (simp add: unat_eq_0)
  then have "Encode e samples =
       encodeBlocks (e\<lparr>w := w e @ [0x66, 0x4C, 0x61, 0x43, 0x80, 0x00, 0x00] @ si\<rparr>) samples
         (len (hd samples)) 0
         ((len (hd samples) + unat (blockSize e) - 1) div unat (blockSize e))"
    by (simp add: Encode_def s sr Let_def)
  with l show ?thesis by blast
qed

lemma Encode_panic:
  assumes "length samples = unat (channels e)" "samples \<noteq> []"
    and "\<forall>s \<in> set samples. len s = N"
    and "2 \<le> unat (blockSize e)" "N mod unat (blockSize e) = 1"
  shows "Encode e samples = Inl PanicIndexOutOfRange"
proof -
  have nz: "blockSize e \<noteq> 0"
    using assms(4) by auto
  have hd: "len (hd samples) = N"
    using assms(2,3) by (cases samples) auto
  obtain si where
    e: "Encode e samples =
       encodeBlocks (e\<lparr>w := w e @ [0x66, 0x4C, 0x61, 0x43, 0x80, 0x00, 0x00] @ si\<rparr>) samples
         N 0 ((N + unat (blockSize e) - 1) div unat (blockSize e))"
    using Encode_eq [OF assms(2) nz] unfolding hd by blast
  let ?e = "e\<lparr>w := w e @ [0x66, 0x4C, 0x61, 0x43, 0x80, 0x00, 0x00] @ si\<rparr>"
  have "encodeBlocks ?e samples N 0 ((N + unat (blockSize ?e) - 1) div unat (blockSize ?e))
       = Inl PanicIndexOutOfRange"
    by (rule encodeBlocks_panic) (use assms in simp_all)
  then show ?thesis
    unfolding e by simp
qed

lemma Encode_ok:
  assumes "length samples = unat (channels e)" "samples \<noteq> []"
    and "\<forall>s \<in> set samples. len s = N"
    and "2 \<le> unat (blockSize e)" "N mod unat (blockSize e) \<noteq> 1"
  shows "\<exists>si fs. length si = 34
        \<and> length fs = (N + unat (blockSize e) - 1) div unat (blockSize e)
        \<and> (\<forall>j < length fs. frameBytes e (blockAt samples (unat (blockSize e)) j) (of_nat j) = Inr (fs ! j))
        \<and> Encode e samples =
            Inr (e\<lparr>w := w e @ [0x66, 0x4C, 0x61, 0x43, 0x80, 0x00, 0x00] @ si @ concat fs\<rparr>)"
proof -
  let ?B = "unat (blockSize e)"
  have nz: "blockSize e \<noteq> 0"
    using assms(4) by auto
  have hd: "len (hd samples) = N"
    using assms(2,3) by (cases samples) auto
  obtain si where l: "length si = 34" and
    e: "Encode e samples =
       encodeBlocks (e\<lparr>w := w e @ [0x66, 0x4C, 0x61, 0x43, 0x80, 0x00, 0x00] @ si\<rparr>) samples
         N 0 ((N + ?B - 1) div ?B)"
    using Encode_eq [OF assms(2) nz] unfolding hd by blast
  let ?e = "e\<lparr>w := w e @ [0x66, 0x4C, 0x61, 0x43, 0x80, 0x00, 0x00] @ si\<rparr>"
  have "\<exists>fs. length fs = (N + ?B - 1) div ?B
        \<and> (\<forall>j < (N + ?B - 1) div ?B. frameBytes ?e (blockAt samples ?B (0 + j)) (of_nat (0 + j)) = Inr (fs ! j))
        \<and> encodeBlocks ?e samples N 0 ((N + ?B - 1) div ?B) = Inr (?e\<lparr>w := w ?e @ concat fs\<rparr>)"
    by (rule encodeBlocks_ok_aux) (use assms in simp_all)
  then obtain fs where "length fs = (N + ?B - 1) div ?B"
    and "\<forall>j < length fs. frameBytes e (blockAt samples ?B j) (of_nat j) = Inr (fs ! j)"
    and "encodeBlocks ?e samples N 0 ((N + ?B - 1) div ?B)
        = Inr (e\<lparr>w := w e @ [0x66, 0x4C, 0x61, 0x43, 0x80, 0x00, 0x00] @ si @ concat fs\<rparr>)"
    by (auto simp add: frameBytes_sink)
  with l e show ?thesis
    by (intro exI [of _ si] exI [of _ fs]) simp
qed

lemma EncodeFrame_short:
  assumes "length blk = unat (channels e)" "blk \<noteq> []"
    and "\<forall>s \<in> set blk. length s = n" "n < 2"
  shows "EncodeFrame e blk fn = Inl PanicIndexOutOfRange"
  using frameBytes_short [OF assms] by (simp add: EncodeFrame_eq)

text \<open>
  Claim C10. A frame whose channels hold the same number of samples, fewer than 2, makes
  \<open>EncodeFrame\<close> panic with an index out of range: the warm-up loop of \<open>encodeSubframe\<close>
  reads \<open>samples[0]\<close> and \<open>samples[1]\<close> before anything else looks at the length. So
  does \<open>Encode\<close> on every rectangular input of \<open>N\<close> samples per channel with
  \<open>N mod 4096 = 1\<close>, whose last block is a single sample: it returns neither an error
  value nor a stream.
\<close>

theorem Encode_panics_on_short_block:
  "(length blk = unat (channels e) \<and> blk \<noteq> [] \<and> (\<forall>s \<in> set blk. length s = n) \<and> n < 2
      \<longrightarrow> EncodeFrame e blk fn = Inl PanicIndexOutOfRange)
   \<and> (length samples = unat (channels e) \<and> samples \<noteq> [] \<and> (\<forall>s \<in> set samples. len s = N)
        \<and> blockSize e = 4096 \<and> N mod 4096 = 1
      \<longrightarrow> Encode e samples = Inl PanicIndexOutOfRange)"
proof (intro conjI impI)
  assume "length blk = unat (channels e) \<and> blk \<noteq> [] \<and> (\<forall>s \<in> set blk. length s = n) \<and> n < 2"
  then show "EncodeFrame e blk fn = Inl PanicIndexOutOfRange"
    by (intro EncodeFrame_short [where n = n]) simp_all
next
  assume a: "length samples = unat (channels e) \<and> samples \<noteq> [] \<and> (\<forall>s \<in> set samples. len s = N)
        \<and> blockSize e = 4096 \<and> N mod 4096 = 1"
  then have "2 \<le> unat (blockSize e)" "N mod unat (blockSize e) = 1"
    by simp_all
  with a show "Encode e samples = Inl PanicIndexOutOfRange"
    by (intro Encode_panic [where N = N]) simp_all
qed

text \<open>
  The theorem on a stereo 16-bit encoder: a frame of one sample per channel, and an input
  of 4097 samples per channel.
\<close>

theorem Encode_panics_on_short_block_witness:
  "length [[1], [2 :: i32]] = unat (channels (mkEncoder 44100 2 16))
   \<and> [[1], [2 :: i32]] \<noteq> []
   \<and> EncodeFrame (mkEncoder 44100 2 16) [[1], [2]] 0 = Inl PanicIndexOutOfRange
   \<and> length [mkSlice (replicate 4097 0), mkSlice (replicate 4097 0)] = unat (channels (mkEncoder 44100 2 16))
   \<and> blockSize (mkEncoder 44100 2 16) = 4096
   \<and> (4097 :: nat) mod 4096 = 1
   \<and> Encode (mkEncoder 44100 2 16) [mkSlice (replicate 4097 0), mkSlice (replicate 4097 0)]
       = Inl PanicIndexOutOfRange"
proof -
  let ?e = "mkEncoder 44100 2 16"
  let ?blk = "[[1], [2 :: i32]]"
  let ?in = "[mkSlice (replicate 4097 0), mkSlice (replicate 4097 0)]"
  have 1: "length ?blk = unat (channels ?e) \<and> ?blk \<noteq> [] \<and> (\<forall>s \<in> set ?blk. length s = 1) \<and> (1 :: nat) < 2"
    by (simp add: mkEncoder_def)
  have 2: "length ?in = unat (channels ?e) \<and> ?in \<noteq> [] \<and> (\<forall>s \<in> set ?in. len s = 4097)
        \<and> blockSize ?e = 4096 \<and> (4097 :: nat) mod 4096 = 1"
    by (simp add: mkEncoder_def mkSlice_def len_def)
  from Encode_panics_on_short_block [of ?blk ?e 1 0 ?in 4097] 1 2
  have "EncodeFrame ?e ?blk 0 = Inl PanicIndexOutOfRange"
    and "Encode ?e ?in = Inl PanicIndexOutOfRange"
    by blast+
  with 1 2 show ?thesis by simp
qed

text \<open>
  Claim C4 fails on the code at one sample: \<open>ceil(1/4096) = 1\<close> frame of block size 1 is
  due after the stream header, and \<open>Encode\<close> panics instead (the defect of claim C10).
\<close>

theorem Encode_one_sample_panics:
  "Encode (mkEncoder 44100 1 16) [mkSlice [5]] = Inl PanicIndexOutOfRange"
  by (rule Encode_panic [where N = 1]) (simp_all add: mkEncoder_def mkSlice_def len_def)

text \<open>
  Claim C1 fails on the code: after the byte 0x80 the sink receives the two bytes
  \<open>length[1:]\<close>, both zero, and then the 34 bytes of STREAMINFO. Offsets 5 to 7 hold
  00 00 10 (the third byte is the high byte of the block size 4096), the payload starts at
  offset 7, and the stream header is 41 bytes long.
\<close>

theorem WriteStreamInfo_two_length_bytes:
  "WriteStreamInfo (mkEncoder 44100 1 16) = Inr ((mkEncoder 44100 1 16)\<lparr>w :=
       [0x66, 0x4C, 0x61, 0x43, 0x80, 0x00, 0x00,
        0x10, 0x00, 0x10, 0x00, 0x00, 0x00, 0x00, 0x00, 0x00, 0x00,
        0x0A, 0xC4, 0x40, 0xF0, 0x00, 0x00, 0x00, 0x00,
        0x00, 0x00, 0x00, 0x00, 0x00, 0x00, 0x00, 0x00,
        0x00, 0x00, 0x00, 0x00, 0x00, 0x00, 0x00, 0x00]\<rparr>)"
  by code_simp

section \<open>The shape checks of EncodeFrame under Encode\<close>

lemma encodeSubframes_Inl:
  "encodeSubframes e bw ss = Inl err \<Longrightarrow> err = PanicIndexOutOfRange"
proof (induction ss arbitrary: bw)
  case Nil
  then show ?case by simp
next
  case (Cons s ss)
  show ?case
  proof (cases "length s < 2")
    case True
    then show ?thesis
      using Cons.prems by (simp add: encodeSubframe_short)
  next
    case False
    then obtain b1 where "encodeSubframe e bw s = Inr b1"
      using encodeSubframe_ok [of s e bw] by auto
    then show ?thesis
      using Cons.prems Cons.IH [of b1] by simp
  qed
qed

lemma frameBytes_of_equal_lengths:
  assumes "length blks = unat (channels e)" "\<forall>b \<in> set blks. length b = n"
  shows "frameBytes e blks fn \<noteq> Inl ErrSampleCountMismatch
       \<and> frameBytes e blks fn \<noteq> Inl ErrBlockSizeMismatch"
proof (cases blks)
  case Nil
  then show ?thesis
    using assms(1) by (simp add: frameBytes_def)
next
  case (Cons s0 rest)
  have ex: "\<not> list_ex (\<lambda>s. length s \<noteq> length s0) rest"
    using assms(2) by (simp add: Cons list_ex_iff)
  show ?thesis
  proof (cases "encodeSubframes e (writeBits (frameHeader e (length s0) fn)
        (ucast (calculateCRC8 (bytes (frameHeader e (length s0) fn)))) 8) blks")
    case (Inl err)
    then have "err = PanicIndexOutOfRange"
      by (rule encodeSubframes_Inl)
    then have "frameBytes e blks fn = Inl PanicIndexOutOfRange"
      using assms(1) ex Inl by (simp add: frameBytes_def Let_def Cons)
    then show ?thesis by simp
  next
    case (Inr bw2)
    then have "\<exists>f. frameBytes e blks fn = Inr f"
      using assms(1) ex by (simp add: frameBytes_def Let_def Cons)
    then show ?thesis by auto
  qed
qed

text \<open>
  \<open>Encode\<close> cuts every channel with the bounds it takes from channel 0, so the frames
  it hands to \<open>EncodeFrame\<close> always pass both shape checks: it never returns either of
  the two errors, whatever the input.
\<close>

lemma encodeBlocks_never_shape_error:
  "encodeBlocks e samples n0 i nb \<noteq> Inl ErrSampleCountMismatch
   \<and> encodeBlocks e samples n0 i nb \<noteq> Inl ErrBlockSizeMismatch"
proof (induction "nb - i" arbitrary: e i)
  case 0
  then have "\<not> i < nb" by simp
  then show ?case by (simp add: encodeBlocks_done)
next
  case (Suc d)
  then have lt: "i < nb" by simp
  let ?B = "unat (blockSize e)"
  let ?stop = "if i * ?B + ?B > n0 then n0 else i * ?B + ?B"
  show ?case
  proof (cases "extractBlock samples (i * ?B) ?stop [0..<unat (channels e)]")
    case (Inl err)
    then have "encodeBlocks e samples n0 i nb = Inl err"
      using lt by (subst encodeBlocks.simps) (simp add: Let_def)
    moreover have "err \<noteq> ErrSampleCountMismatch \<and> err \<noteq> ErrBlockSizeMismatch"
    proof -
      have "extractBlock samples a b chs = Inl err \<Longrightarrow>
          err = PanicIndexOutOfRange \<or> err = PanicSliceBounds" for a b chs
        by (induction chs) (auto simp add: sliceRange_def split: if_splits sum.splits)
      with Inl show ?thesis by auto
    qed
    ultimately show ?thesis by simp
  next
    case (Inr blks)
    from extractBlock_lengths [OF Inr]
    have l: "length blks = unat (channels e)" "\<forall>b \<in> set blks. length b = ?stop - i * ?B"
      by simp_all
    have step: "encodeBlocks e samples n0 i nb =
        (case frameBytes e blks (of_nat i) of Inl err \<Rightarrow> Inl err
         | Inr f \<Rightarrow> encodeBlocks (e\<lparr>w := w e @ f\<rparr>) samples n0 (Suc i) nb)"
      using lt Inr by (subst encodeBlocks.simps) (simp add: Let_def EncodeFrame_eq split: sum.splits)
    show ?thesis
    proof (cases "frameBytes e blks (of_nat i)")
      case (Inl err)
      then show ?thesis
        using frameBytes_of_equal_lengths [OF l, of "of_nat i"] by (simp add: step)
    next
      case (Inr f)
      have "d = nb - Suc i" using Suc.hyps(2) by simp
      from Suc.hyps(1) [OF this, of "e\<lparr>w := w e @ f\<rparr>"] show ?thesis
        by (simp add: step Inr)
    qed
  qed
qed

lemma Encode_never_shape_error:
  "Encode e samples \<noteq> Inl ErrSampleCountMismatch \<and> Encode e samples \<noteq> Inl ErrBlockSizeMismatch"
proof -
  obtain si where s: "WriteStreamInfo e = Inr (e\<lparr>w := w e @ [0x66, 0x4C, 0x61, 0x43, 0x80, 0x00, 0x00] @ si\<rparr>)"
    using WriteStreamInfo_Inr [of e] by blast
  show ?thesis
    using encodeBlocks_never_shape_error
    by (simp add: Encode_def s Let_def split: list.splits)
qed

text \<open>
  Claim C2 fails on the code. With \<open>samples[0]\<close> of length 100 and \<open>samples[1]\<close> of length
  and capacity 99, \<open>samples[1][0:100]\<close> panics with slice bounds out of range before
  \<open>EncodeFrame\<close> is reached. With the lengths the other way round, \<open>samples[1]\<close> is cut to
  99 samples and \<open>Encode\<close> returns no error.
\<close>

theorem Encode_shape_mismatch_panics:
  "Encode (mkEncoder 44100 2 16) [mkSlice (replicate 100 0), mkSlice (replicate 99 0)]
     = Inl PanicSliceBounds
   \<and> (\<exists>e'. Encode (mkEncoder 44100 2 16) [mkSlice (replicate 99 0), mkSlice (replicate 100 0)]
            = Inr e')"
proof
  let ?e = "mkEncoder 44100 2 16"
  let ?in = "[mkSlice (replicate 100 0), mkSlice (replicate 99 0)]"
  obtain si where
    e: "Encode ?e ?in =
       encodeBlocks (?e\<lparr>w := w ?e @ [0x66, 0x4C, 0x61, 0x43, 0x80, 0x00, 0x00] @ si\<rparr>) ?in
         (len (hd ?in)) 0 ((len (hd ?in) + unat (blockSize ?e) - 1) div unat (blockSize ?e))"
    using Encode_eq [of ?in ?e] by (auto simp add: mkEncoder_def)
  have u: "[0..<2] = [0, Suc 0]"
    by (simp add: upt_rec numeral_2_eq_2)
  show "Encode ?e ?in = Inl PanicSliceBounds"
    unfolding e
    by (subst encodeBlocks.simps)
      (simp add: mkEncoder_def mkSlice_def len_def cap_def sliceRange_def Let_def u)
next
  let ?e = "mkEncoder 44100 2 16"
  let ?in = "[mkSlice (replicate 99 0), mkSlice (replicate 100 0)]"
  obtain si where
    e: "Encode ?e ?in =
       encodeBlocks (?e\<lparr>w := w ?e @ [0x66, 0x4C, 0x61, 0x43, 0x80, 0x00, 0x00] @ si\<rparr>) ?in
         (len (hd ?in)) 0 ((len (hd ?in) + unat (blockSize ?e) - 1) div unat (blockSize ?e))"
    using Encode_eq [of ?in ?e] by (auto simp add: mkEncoder_def)
  define e1 where "e1 = ?e\<lparr>w := w ?e @ [0x66, 0x4C, 0x61, 0x43, 0x80, 0x00, 0x00] @ si\<rparr>"
  have c: "unat (channels e1) = 2" "unat (blockSize e1) = 4096"
    by (simp_all add: e1_def mkEncoder_def)
  have n: "len (hd ?in) = 99" "(99 + unat (blockSize ?e) - 1) div unat (blockSize ?e) = 1"
    by (simp_all add: mkSlice_def len_def mkEncoder_def)
  have u: "[0..<2] = [0, Suc 0]"
    by (simp add: upt_rec numeral_2_eq_2)
  have x: "extractBlock ?in 0 99 [0..<2] = Inr [replicate 99 0, replicate 99 0]"
    by (simp add: u mkSlice_def sliceRange_def cap_def)
  obtain f where f: "frameBytes e1 [replicate 99 0, replicate 99 0] 0 = Inr f"
    using frameBytes_ok [where n = 99 and e = e1 and samples = "[replicate 99 0, replicate 99 0]" and fn = 0]
    by (auto simp add: c)
  have "encodeBlocks e1 ?in 99 0 1 = Inr (e1\<lparr>w := w e1 @ f\<rparr>)"
    by (subst encodeBlocks.simps) (simp add: Let_def c x EncodeFrame_eq f encodeBlocks_done)
  then show "\<exists>e'. Encode ?e ?in = Inr e'"
    unfolding e e1_def [symmetric] n by simp
qed

section \<open>Block-size codes\<close>

lemma getBlockSizeCode_table:
  "getBlockSizeCode 192 = 0x1"
  "getBlockSizeCode 576 = 0x2" "getBlockSizeCode 1152 = 0x3"
  "getBlockSizeCode 2304 = 0x4" "getBlockSizeCode 4608 = 0x5"
  "getBlockSizeCode 256 = 0x8" "getBlockSizeCode 512 = 0x9"
  "getBlockSizeCode 1024 = 0xA" "getBlockSizeCode 2048 = 0xB"
  "getBlockSizeCode 4096 = 0xC" "getBlockSizeCode 8192 = 0xD"
  "getBlockSizeCode 16384 = 0xE" "getBlockSizeCode 32768 = 0xF"
  by (simp_all add: getBlockSizeCode_def)

lemma getBlockSizeCode_other:
  assumes "bs \<notin> {192, 576, 1152, 2304, 4608, 256, 512, 1024, 2048, 4096, 8192, 16384, 32768}"
  shows "bs \<le> 256 \<longrightarrow> getBlockSizeCode bs = 0x6" and "256 < bs \<longrightarrow> getBlockSizeCode bs = 0x7"
  using assms by (auto simp add: getBlockSizeCode_def)

lemma getBlockSizeCode_nonzero: "getBlockSizeCode bs \<noteq> 0x0"
  by (simp add: getBlockSizeCode_def)

lemma frameHeader_trailer:
  "bytes (frameHeader e n fn) =
     bytes (frameHeaderCodes e n) @ utf8_bytes fn
       @ (if getBlockSizeCode (of_nat n) = 0x6 then [of_int (int n - 1)]
          else if getBlockSizeCode (of_nat n) = 0x7
          then [ucast (drop_bit 8 (of_int (int n - 1) :: u16)), ucast (of_int (int n - 1) :: u16)]
          else [])
       @ sampleRateTrailer (sampleRate e)"
proof -
  have a: "(ucast (of_int k :: u64) :: u8) = of_int k" for k
    by (rule bit_eqI) (auto simp add: bit_simps)
  have b: "(ucast (of_int k :: u16) :: u8) = of_int k" for k
    by (rule bit_eqI) (auto simp add: bit_simps)
  have c: "(ucast (drop_bit 8 (of_int k :: u64)) :: u8) = ucast (drop_bit 8 (of_int k :: u16))" for k
    by (rule bit_eqI) (auto simp add: bit_simps)
  define k where "k = int n - 1"
  show ?thesis
    unfolding blockSizeTrailer_def bytes_def frameHeader_eq frameHeaderCodes_eq Let_def k_def [symmetric]
    by (simp add: a b c)
qed


lemma second_frame_of_5000:
  assumes "length samples = unat (channels e)" "samples \<noteq> []"
    and "\<forall>s \<in> set samples. len s = 5000" and "blockSize e = 4096"
  shows "\<exists>si f0 f1 b3 rest. length si = 34
      \<and> Encode e samples = Inr (e\<lparr>w := w e @ [0x66, 0x4C, 0x61, 0x43, 0x80, 0x00, 0x00] @ si @ f0 @ f1\<rparr>)
      \<and> frameBytes e (blockAt samples 4096 0) 0 = Inr f0
      \<and> frameBytes e (blockAt samples 4096 1) 1 = Inr f1
      \<and> f1 = [0xFF, 0xF8, 0x70 OR (getSampleRateCode (sampleRate e) AND 0x0F), b3, 0x01, 0x03, 0x87] @ rest"
proof -
  have B: "unat (blockSize e) = 4096"
    using assms(4) by simp
  have "2 \<le> unat (blockSize e)" "(5000 :: nat) mod unat (blockSize e) \<noteq> 1"
    by (simp_all add: B)
  from Encode_ok [OF assms(1,2,3) this]
  obtain si fs where si: "length si = 34" and l: "length fs = 2"
    and fr: "\<forall>j < length fs. frameBytes e (blockAt samples 4096 j) (of_nat j) = Inr (fs ! j)"
    and en: "Encode e samples = Inr (e\<lparr>w := w e @ [0x66, 0x4C, 0x61, 0x43, 0x80, 0x00, 0x00] @ si @ concat fs\<rparr>)"
    unfolding B by auto
  from l obtain f0 f1 where fs: "fs = [f0, f1]"
    by (cases fs; cases "tl fs") auto
  have f0: "frameBytes e (blockAt samples 4096 0) 0 = Inr f0"
    using fr [rule_format, of 0] by (simp add: fs)
  have f1: "frameBytes e (blockAt samples 4096 1) 1 = Inr f1"
    using fr [rule_format, of 1] by (simp add: fs)
  have "hd (blockAt samples 4096 1) \<in> set (blockAt samples 4096 1)"
    using assms(2) by (intro hd_in_set blockAt_nonempty)
  then have n: "length (hd (blockAt samples 4096 1)) = 904"
    using blockAt_shape(2) [OF assms(3), of 4096 1] by auto
  have c: "getBlockSizeCode (of_nat 904) = 0x7"
    by (simp add: getBlockSizeCode_def)
  have u: "utf8_bytes 1 = [0x01]"
    by (simp add: utf8_bytes_small)
  have t: "blockSizeTrailer 904 = [0x03, 0x87]"
    by (simp add: blockSizeTrailer_def getBlockSizeCode_def)
  have h: "bytes (frameHeader e 904 1) =
      [0xFF, 0xF8, 0x70 OR (getSampleRateCode (sampleRate e) AND 0x0F),
       push_bit 4 (channels e - 1) OR push_bit 1 (getSampleSizeCode (bitsPerSample e) AND 0x07),
       0x01, 0x03, 0x87] @ sampleRateTrailer (sampleRate e)"
    unfolding bytes_def frameHeader_eq c u t by simp
  from frameBytes_Inr [OF f1] obtain body where
    "f1 = bytes (frameHeader e 904 1) @ [calculateCRC8 (bytes (frameHeader e 904 1))] @ body
        @ [ucast (drop_bit 8 (calculateCRC16 (bytes (frameHeader e 904 1)
              @ [calculateCRC8 (bytes (frameHeader e 904 1))] @ body))),
           ucast (calculateCRC16 (bytes (frameHeader e 904 1)
              @ [calculateCRC8 (bytes (frameHeader e 904 1))] @ body))]"
    unfolding n by blast
  then have "\<exists>b3 rest. f1 = [0xFF, 0xF8, 0x70 OR (getSampleRateCode (sampleRate e) AND 0x0F), b3, 0x01, 0x03, 0x87] @ rest"
    unfolding h by simp
  with si en f0 f1 show ?thesis
    by (auto simp add: fs)
qed


text \<open>
  Claim C7. \<open>getBlockSizeCode\<close> maps 192 to 0x1, 576, 1152, 2304 and 4608 to 0x2 to 0x5,
  256, 512, ..., 32768 to 0x8 to 0xF, any other size up to 256 to 0x6 and any other size
  to 0x7, and never returns 0x0. The frame header carries, after the frame number, the
  8-bit value \<open>n - 1\<close> for code 0x6 and the 16-bit value \<open>n - 1\<close> (high byte first) for
  code 0x7, and nothing for the other codes. On an input of 5000 samples per channel
  \<open>Encode\<close> writes two frames, and the second starts with the sync bytes, code 0x7 in
  the high half of the third byte, a byte of channel and sample-size codes, the frame
  number 1, and the trailer 03 87 (903).
\<close>

theorem getBlockSizeCode_and_trailer:
  "getBlockSizeCode 192 = 0x1
   \<and> getBlockSizeCode 576 = 0x2 \<and> getBlockSizeCode 1152 = 0x3
   \<and> getBlockSizeCode 2304 = 0x4 \<and> getBlockSizeCode 4608 = 0x5
   \<and> getBlockSizeCode 256 = 0x8 \<and> getBlockSizeCode 512 = 0x9
   \<and> getBlockSizeCode 1024 = 0xA \<and> getBlockSizeCode 2048 = 0xB
   \<and> getBlockSizeCode 4096 = 0xC \<and> getBlockSizeCode 8192 = 0xD
   \<and> getBlockSizeCode 16384 = 0xE \<and> getBlockSizeCode 32768 = 0xF
   \<and> (bs \<notin> {192, 576, 1152, 2304, 4608, 256, 512, 1024, 2048, 4096, 8192, 16384, 32768}
        \<and> bs \<le> 256 \<longrightarrow> getBlockSizeCode bs = 0x6)
   \<and> (bs' \<notin> {192, 576, 1152, 2304, 4608, 256, 512, 1024, 2048, 4096, 8192, 16384, 32768}
        \<and> 256 < bs' \<longrightarrow> getBlockSizeCode bs' = 0x7)
   \<and> getBlockSizeCode bs \<noteq> 0x0
   \<and> bytes (frameHeader e n fn) =
       bytes (frameHeaderCodes e n) @ utf8_bytes fn
         @ (if getBlockSizeCode (of_nat n) = 0x6 then [of_int (int n - 1)]
            else if getBlockSizeCode (of_nat n) = 0x7
            then [ucast (drop_bit 8 (of_int (int n - 1) :: u16)), ucast (of_int (int n - 1) :: u16)]
            else [])
         @ sampleRateTrailer (sampleRate e)
   \<and> (length samples = unat (channels e) \<and> samples \<noteq> [] \<and> (\<forall>s \<in> set samples. len s = 5000)
        \<and> blockSize e = 4096 \<longrightarrow>
       (\<exists>si f0 f1 b3 rest. length si = 34
          \<and> Encode e samples
              = Inr (e\<lparr>w := w e @ [0x66, 0x4C, 0x61, 0x43, 0x80, 0x00, 0x00] @ si @ f0 @ f1\<rparr>)
          \<and> frameBytes e (blockAt samples 4096 0) 0 = Inr f0
          \<and> frameBytes e (blockAt samples 4096 1) 1 = Inr f1
          \<and> f1 = [0xFF, 0xF8, 0x70 OR (getSampleRateCode (sampleRate e) AND 0x0F), b3,
                   0x01, 0x03, 0x87] @ rest))"
proof -
  have o6: "bs \<notin> {192, 576, 1152, 2304, 4608, 256, 512, 1024, 2048, 4096, 8192, 16384, 32768}
        \<and> bs \<le> 256 \<longrightarrow> getBlockSizeCode bs = 0x6"
    using getBlockSizeCode_other(1) [of bs] by blast
  have o7: "bs' \<notin> {192, 576, 1152, 2304, 4608, 256, 512, 1024, 2048, 4096, 8192, 16384, 32768}
        \<and> 256 < bs' \<longrightarrow> getBlockSizeCode bs' = 0x7"
    using getBlockSizeCode_other(2) [of bs'] by blast
  have five: "length samples = unat (channels e) \<and> samples \<noteq> [] \<and> (\<forall>s \<in> set samples. len s = 5000)
        \<and> blockSize e = 4096 \<longrightarrow>
       (\<exists>si f0 f1 b3 rest. length si = 34
          \<and> Encode e samples
              = Inr (e\<lparr>w := w e @ [0x66, 0x4C, 0x61, 0x43, 0x80, 0x00, 0x00] @ si @ f0 @ f1\<rparr>)
          \<and> frameBytes e (blockAt samples 4096 0) 0 = Inr f0
          \<and> frameBytes e (blockAt samples 4096 1) 1 = Inr f1
          \<and> f1 = [0xFF, 0xF8, 0x70 OR (getSampleRateCode (sampleRate e) AND 0x0F), b3,
                   0x01, 0x03, 0x87] @ rest)"
    using second_frame_of_5000 [of samples e] by blast
  show ?thesis
    by (intro conjI getBlockSizeCode_table o6 o7 getBlockSizeCode_nonzero frameHeader_trailer five)
qed

text \<open>
  The theorem on a mono 16-bit 44100 Hz encoder (sample-rate code 9), the sizes 100 and
  904, and 5000 zero samples.
\<close>

theorem getBlockSizeCode_and_trailer_witness:
  "(100 :: u32) \<notin> {192, 576, 1152, 2304, 4608, 256, 512, 1024, 2048, 4096, 8192, 16384, 32768}
   \<and> (100 :: u32) \<le> 256 \<and> getBlockSizeCode 100 = 0x6
   \<and> (904 :: u32) \<notin> {192, 576, 1152, 2304, 4608, 256, 512, 1024, 2048, 4096, 8192, 16384, 32768}
   \<and> (256 :: u32) < 904 \<and> getBlockSizeCode 904 = 0x7
   \<and> length [mkSlice (replicate 5000 0)] = unat (channels (mkEncoder 44100 1 16))
   \<and> blockSize (mkEncoder 44100 1 16) = 4096
   \<and> (\<exists>si f0 f1 b3 rest. length si = 34
          \<and> Encode (mkEncoder 44100 1 16) [mkSlice (replicate 5000 0)]
              = Inr ((mkEncoder 44100 1 16)\<lparr>w := [0x66, 0x4C, 0x61, 0x43, 0x80, 0x00, 0x00] @ si @ f0 @ f1\<rparr>)
          \<and> f1 = [0xFF, 0xF8, 0x79, b3, 0x01, 0x03, 0x87] @ rest)"
proof -
  let ?e = "mkEncoder 44100 1 16"
  let ?in = "[mkSlice (replicate 5000 0)]"
  have a: "(100 :: u32) \<notin> {192, 576, 1152, 2304, 4608, 256, 512, 1024, 2048, 4096, 8192, 16384, 32768}
       \<and> (100 :: u32) \<le> 256"
    by simp
  have b: "(904 :: u32) \<notin> {192, 576, 1152, 2304, 4608, 256, 512, 1024, 2048, 4096, 8192, 16384, 32768}
       \<and> (256 :: u32) < 904"
    by simp
  have c: "length ?in = unat (channels ?e) \<and> ?in \<noteq> [] \<and> (\<forall>s \<in> set ?in. len s = 5000)
        \<and> blockSize ?e = 4096"
    by (simp add: mkEncoder_def mkSlice_def len_def)
  have r: "(0x70 :: u8) OR (getSampleRateCode (sampleRate ?e) AND 0x0F) = 0x79"
    by (simp add: mkEncoder_def getSampleRateCode_def)
  have s: "w ?e = []"
    by (simp add: mkEncoder_def)
  note t = getBlockSizeCode_and_trailer [of 100 904 ?e 904 1 ?in]
  from t a have 1: "getBlockSizeCode 100 = 0x6" by blast
  from t b have 2: "getBlockSizeCode 904 = 0x7" by blast
  from t c have "\<exists>si f0 f1 b3 rest. length si = 34
          \<and> Encode ?e ?in
              = Inr (?e\<lparr>w := w ?e @ [0x66, 0x4C, 0x61, 0x43, 0x80, 0x00, 0x00] @ si @ f0 @ f1\<rparr>)
          \<and> frameBytes ?e (blockAt ?in 4096 0) 0 = Inr f0
          \<and> frameBytes ?e (blockAt ?in 4096 1) 1 = Inr f1
          \<and> f1 = [0xFF, 0xF8, 0x70 OR (getSampleRateCode (sampleRate ?e) AND 0x0F), b3,
                   0x01, 0x03, 0x87] @ rest"
    by blast
  then have 3: "\<exists>si f0 f1 b3 rest. length si = 34
          \<and> Encode ?e ?in = Inr (?e\<lparr>w := [0x66, 0x4C, 0x61, 0x43, 0x80, 0x00, 0x00] @ si @ f0 @ f1\<rparr>)
          \<and> f1 = [0xFF, 0xF8, 0x79, b3, 0x01, 0x03, 0x87] @ rest"
    unfolding r s by (elim exE conjE) (intro exI conjI, assumption, simp, assumption)
  from a b c 1 2 3 show ?thesis by blast
qed

section \<open>The Rice parameter on the minimal residual\<close>

lemma findOptimalRiceParameter_Nil: "findOptimalRiceParameter [] = 0"
  by (simp add: findOptimalRiceParameter_def)

lemma riceParam_field:
  assumes "bitCount bw < 8"
  shows "bw_bits (writeBits bw (ucast (findOptimalRiceParameter rs)) 4)
       = bw_bits bw @ msb_bits (findOptimalRiceParameter rs) 4"
proof -
  have "bitCount bw + 4 \<le> 64" using assms by simp
  then have "bw_bits (writeBits bw (ucast (findOptimalRiceParameter rs)) 4)
       = bw_bits bw @ msb_bits (ucast (findOptimalRiceParameter rs) :: u64) 4"
    by (rule writeBits_bits)
  moreover have "msb_bits (ucast (findOptimalRiceParameter rs) :: u64) 4
       = msb_bits (findOptimalRiceParameter rs) 4"
    by (rule msb_bits_cong) (simp add: bit_simps)
  ultimately show ?thesis by simp
qed

text \<open>
  Claim C8 fails on the code for the residuals \<open>-2^31, 2^31 - 1, 1\<close>, which
  \<open>encodeSubframe\<close> computes from the 32-bit samples \<open>0, 0, -2^31, 2^31 - 1, 2^31 - 1\<close>.
  \<open>uint64(-r)\<close> for \<open>r = -2^31\<close> is \<open>2^64 - 2^31\<close>, the sum wraps to 0, the mean is 0
  and the parameter is 0. The mean absolute residual is \<open>2^32 / 3\<close>, between \<open>2^30\<close> and
  \<open>2^31\<close>, for which the claim gives \<open>floor(log2(mean)) = 30\<close> clamped to 14.
\<close>

theorem findOptimalRiceParameter_abs_overflow:
  "calcResiduals [0, 0, - 2147483648, 2147483647, 2147483647] 2 [2..<5]
     = Inr [- 2147483648, 2147483647, 1]
   \<and> findOptimalRiceParameter [- 2147483648, 2147483647, 1] = 0
   \<and> (\<Sum>r\<leftarrow>[- 2147483648, 2147483647, 1 :: i32]. \<bar>sint r\<bar>) = 2 ^ 32
   \<and> (2 :: real) ^ 30 \<le> 2 ^ 32 / 3 \<and> (2 :: real) ^ 32 / 3 < 2 ^ 31"
proof -
  have "calcResiduals [0, 0, - 2147483648, 2147483647, 2147483647] 2 [2..<5]
     = Inr [- 2147483648, 2147483647, 1]"
    by code_simp
  moreover have "findOptimalRiceParameter [- 2147483648, 2147483647, 1] = 0"
    by code_simp
  moreover have "(\<Sum>r\<leftarrow>[- 2147483648, 2147483647, 1 :: i32]. \<bar>sint r\<bar>) = 2 ^ 32"
    by simp
  moreover have "(2 :: real) ^ 30 \<le> 2 ^ 32 / 3 \<and> (2 :: real) ^ 32 / 3 < 2 ^ 31"
    by simp
  ultimately show ?thesis by blast
qed

text \<open>
  Away from the minimal residual the sum is exact: for residuals other than \<open>-2^31\<close>, in
  a list of fewer than \<open>2^33\<close> of them, the \<open>uint64\<close> sum is the sum of the absolute values,
  and the parameter is the one of the claim (with \<open>float64\<close> read as exact arithmetic).
\<close>

lemma unat_abs_term:
  fixes r :: i32
  assumes "r \<noteq> - 2147483648"
  shows "unat (if r <s 0 then scast (- r) else scast r :: u64) = nat \<bar>sint r\<bar>"
proof -
  have lo: "- (2 ^ 31) \<le> sint r" and hi: "sint r < 2 ^ 31"
    using sint_ge [of r] sint_lt [of r] by simp_all
  have ne: "sint r \<noteq> - (2 ^ 31)"
  proof
    assume "sint r = - (2 ^ 31)"
    then have "word_of_int (sint r) = (word_of_int (- (2 ^ 31)) :: i32)" by simp
    then show False using assms by simp
  qed
  show ?thesis
  proof (cases "r <s 0")
    case True
    then have neg: "sint r < 0" by (simp add: word_sless_alt)
    have "- r = (word_of_int (- sint r) :: i32)" by simp
    then have "sint (- r) = signed_take_bit 31 (- sint r)"
      by (simp only: sint_sbintrunc') simp
    also have "\<dots> = - sint r"
      using lo ne neg by (intro signed_take_bit_int_eq_self) simp_all
    finally have s: "sint (- r) = - sint r" .
    have "(scast (- r) :: u64) = word_of_int (- sint r)"
      by (simp only: scast_eq s)
    then have "unat (scast (- r) :: u64) = nat ((- sint r) mod 2 ^ 64)"
      by (simp only: unat_eq_nat_uint uint_word_of_int) simp
    also have "\<dots> = nat (- sint r)"
      using lo neg by (simp add: mod_pos_pos_trivial)
    finally show ?thesis using True neg by simp
  next
    case False
    then have pos: "0 \<le> sint r" by (simp add: word_sless_alt)
    have "(scast r :: u64) = word_of_int (sint r)"
      by (simp only: scast_eq)
    then have "unat (scast r :: u64) = nat (sint r mod 2 ^ 64)"
      by (simp only: unat_eq_nat_uint uint_word_of_int) simp
    also have "\<dots> = nat (sint r)"
      using hi pos by (simp add: mod_pos_pos_trivial)
    finally show ?thesis using False pos by simp
  qed
qed

lemma abs_sum_exact_aux:
  fixes rs :: "i32 list" and s :: u64
  assumes "\<forall>r \<in> set rs. r \<noteq> - 2147483648"
    and "unat s + length rs * 2 ^ 31 \<le> 2 ^ 64"
  shows "unat (foldl (\<lambda>sum r. if r <s 0 then sum + scast (- r) else sum + scast r) s rs)
       = unat s + nat (\<Sum>r\<leftarrow>rs. \<bar>sint r\<bar>)"
  using assms
proof (induction rs arbitrary: s)
  case Nil
  then show ?case by simp
next
  case (Cons r rs)
  let ?t = "(if r <s 0 then scast (- r) else scast r) :: u64"
  have t: "unat ?t = nat \<bar>sint r\<bar>"
    using Cons.prems(1) by (intro unat_abs_term) simp
  have "sint r \<noteq> - (2 ^ 31)"
  proof
    assume "sint r = - (2 ^ 31)"
    then have "word_of_int (sint r) = (word_of_int (- (2 ^ 31)) :: i32)" by simp
    then show False using Cons.prems(1) by simp
  qed
  then have b: "nat \<bar>sint r\<bar> < 2 ^ 31"
    using sint_ge [of r] sint_lt [of r] by simp
  have "unat s + unat ?t < 2 ^ 64"
    using Cons.prems(2) b by (simp add: t)
  then have a: "unat (s + ?t) = unat s + nat \<bar>sint r\<bar>"
    using unat_add_lem [of s ?t] by (simp add: t)
  have f: "(if r <s 0 then s + scast (- r) else s + scast r) = s + ?t"
    by simp
  have "unat (foldl (\<lambda>sum r. if r <s 0 then sum + scast (- r) else sum + scast r) (s + ?t) rs)
       = unat (s + ?t) + nat (\<Sum>r\<leftarrow>rs. \<bar>sint r\<bar>)"
  proof (rule Cons.IH)
    show "\<forall>r \<in> set rs. r \<noteq> - 2147483648"
      using Cons.prems(1) by simp
    show "unat (s + ?t) + length rs * 2 ^ 31 \<le> 2 ^ 64"
      using Cons.prems(2) b by (simp add: a)
  qed
  moreover have "nat (\<Sum>x\<leftarrow>r # rs. \<bar>sint x\<bar>) = nat \<bar>sint r\<bar> + nat (\<Sum>x\<leftarrow>rs. \<bar>sint x\<bar>)"
  proof -
    have "0 \<le> (\<Sum>x\<leftarrow>rs. \<bar>sint x\<bar>)"
      by (rule sum_list_nonneg) auto
    then show ?thesis
      by (simp add: nat_add_distrib)
  qed
  ultimately show ?case
    by (simp only: foldl_Cons f a)
qed

lemma findOptimalRiceParameter_exact:
  fixes rs :: "i32 list"
  assumes "\<forall>r \<in> set rs. r \<noteq> - 2147483648" and "length rs < 2 ^ 33" and "rs \<noteq> []"
  shows "findOptimalRiceParameter rs =
     (let mean = real_of_int (\<Sum>r\<leftarrow>rs. \<bar>sint r\<bar>) / real (length rs)
      in if mean < 1 then 0 else of_nat (min 14 (nat \<lfloor>log 2 mean\<rfloor>)))"
proof -
  define S where "S = nat (\<Sum>r\<leftarrow>rs. \<bar>sint r\<bar>)"
  have "length rs * 2 ^ 31 \<le> 2 ^ 33 * (2 ^ 31 :: nat)"
    using assms(2) by (intro mult_le_mono1) simp
  then have "unat (0 :: u64) + length rs * 2 ^ 31 \<le> 2 ^ 64"
    by simp
  from abs_sum_exact_aux [OF assms(1) this]
  have sum: "unat (foldl (\<lambda>sum r. if r <s 0 then sum + scast (- r) else sum + scast r) (0 :: u64) rs) = S"
    by (simp add: S_def)
  have "0 \<le> (\<Sum>r\<leftarrow>rs. \<bar>sint r\<bar>)"
    by (rule sum_list_nonneg) auto
  then have S: "real_of_int (\<Sum>r\<leftarrow>rs. \<bar>sint r\<bar>) = real S"
    by (simp add: S_def)
  define m where "m = real S / real (length rs)"
  have clamp: "(if (14 :: u8) < of_int \<lfloor>log 2 m\<rfloor> then 14 else of_int \<lfloor>log 2 m\<rfloor>)
       = of_nat (min 14 (nat \<lfloor>log 2 m\<rfloor>))" if "\<not> m < 1"
  proof -
    have "1 \<le> m" using that by simp
    then have "0 \<le> log 2 m" by simp
    then have nn: "0 \<le> \<lfloor>log 2 m\<rfloor>" by simp
    have "1 \<le> real (length rs)"
      using assms(3) by (cases rs) simp_all
    then have "real S / real (length rs) \<le> real S / 1"
      using assms(3) by (intro divide_left_mono) simp_all
    then have "m \<le> real S"
      by (simp add: m_def)
    moreover have "S < 2 ^ 64"
      using sum [symmetric] unsigned_less [of "foldl (\<lambda>sum r. if r <s 0 then sum + scast (- r) else sum + scast r) (0 :: u64) rs"]
      by simp
    ultimately have "m < 2 ^ 64" by simp
    then have "log 2 m < 64"
      using \<open>1 \<le> m\<close> by (simp add: log_less_iff)
    then have ub: "\<lfloor>log 2 m\<rfloor> < 64" by linarith
    define k where "k = nat \<lfloor>log 2 m\<rfloor>"
    have k: "\<lfloor>log 2 m\<rfloor> = int k" "k < 64"
      unfolding k_def using nn ub by linarith+
    have "(14 :: u8) < of_nat k \<longleftrightarrow> 14 < k"
      using k(2) by (simp add: word_less_nat_alt unat_of_nat)
    then show ?thesis
      unfolding k by (auto simp add: min_def)
  qed
  show ?thesis
    using assms(3) clamp
    by (simp only: findOptimalRiceParameter_def Let_def sum S flip: m_def split: if_splits)
      auto
qed

section \<open>Frames and block sizes of a whole input\<close>

text \<open>
  Every block but a shorter last one holds \<open>B\<close> samples per channel; a shorter last block
  holds \<open>N mod B\<close>.
\<close>

lemma block_sizes:
  assumes "\<forall>s \<in> set samples. len s = N" and "0 < B" and "j < (N + B - 1) div B"
  shows "\<forall>b \<in> set (blockAt samples B j). length b = (if Suc j * B \<le> N then B else N mod B)"
proof -
  have lt: "j * B < N"
    using assms(2,3) by (rule ceil_div_less)
  have "min B (N - j * B) = (if Suc j * B \<le> N then B else N mod B)"
  proof (cases "Suc j * B \<le> N")
    case True
    then show ?thesis by simp
  next
    case False
    then have r: "N - j * B < B" using assms(2) by simp
    have "N = N - j * B + j * B" using lt by simp
    then have "N mod B = (N - j * B + j * B) mod B" by (rule arg_cong)
    also have "\<dots> = (N - j * B) mod B" by (rule mod_mult_self1)
    also have "\<dots> = N - j * B" using r by simp
    finally show ?thesis using False r by simp
  qed
  then show ?thesis
    using blockAt_shape(2) [OF assms(1), of B j] by simp
qed

text \<open>An input of no samples gives the stream header alone.\<close>

lemma Encode_empty:
  assumes "length samples = unat (channels e)" "samples \<noteq> []"
    and "\<forall>s \<in> set samples. len s = 0" and "2 \<le> unat (blockSize e)"
  shows "\<exists>si. length si = 34
       \<and> Encode e samples = Inr (e\<lparr>w := w e @ [0x66, 0x4C, 0x61, 0x43, 0x80, 0x00, 0x00] @ si\<rparr>)"
proof -
  have "(0 :: nat) mod unat (blockSize e) \<noteq> 1"
    by simp
  from Encode_ok [OF assms(1,2,3,4) this]
  obtain si fs where "length si = 34" and "length fs = (0 + unat (blockSize e) - 1) div unat (blockSize e)"
    and e: "Encode e samples = Inr (e\<lparr>w := w e @ [0x66, 0x4C, 0x61, 0x43, 0x80, 0x00, 0x00] @ si @ concat fs\<rparr>)"
    by blast
  moreover have "(0 + unat (blockSize e) - 1) div unat (blockSize e) = 0"
    using assms(4) by simp
  ultimately have "fs = []" by simp
  with e \<open>length si = 34\<close> show ?thesis by auto
qed

end
